theory Spec2Isabelle
  imports
    Complex_Main
    "HOL-Library.AList"
    "HOL-Library.Char_ord"
    "HOL-Library.List_Lexorder"
begin

section \<open>Python values and dictionaries\<close>

text \<open>
  The record values handled by \<^verbatim>\<open>InfluxDB3Sink\<close> are Python dictionaries from strings to
  \<^verbatim>\<open>str | int | float | bool\<close>; record keys and exception attributes may also be
  \<^verbatim>\<open>None\<close>. A finite float is represented by the rational number it denotes (NaN and the
  infinities are left out). A character of a string is a code point below 256, which is
  what a header value decoded by the HTTP client consists of. A \<^verbatim>\<open>dict\<close> is an association
  list in insertion order whose keys are distinct; \<^verbatim>\<open>d[k] = v\<close> is \<open>AList.update\<close> (in
  place for a present key, at the end for a new one) and removing a key is
  \<open>AList.delete\<close>.
\<close>

datatype pyval = PNone | PBool bool | PInt int | PFloat rat | PStr string

type_synonym pydict = "(string \<times> pyval) list"

datatype value_error =
  InvalidTimePrecision | OverlappingKeys | InvalidLiteralForInt | ChunkSizeBelowOne

text \<open>
  What \<^verbatim>\<open>client.write\<close> may raise: an \<^verbatim>\<open>InfluxDBError\<close>, of which the sink reads
  \<^verbatim>\<open>response\<close> (absent, or an HTTP response with a status) and \<^verbatim>\<open>retry_after\<close>
  (the value of the Retry-After header, or \<^verbatim>\<open>None\<close>), or any other exception, which is
  identified by a name.
\<close>

datatype response = Response (status: int)

datatype client_exc = InfluxDBError "response option" pyval | OtherException string

datatype error =
    KeyError string
  | TypeError
  | ValueError value_error
  | SinkBackpressureError (retry_after: int) (bp_topic: string) (bp_partition: int)
  | Propagated client_exc

definition dict_contains :: "pydict \<Rightarrow> string \<Rightarrow> bool" where
  "dict_contains d k = (map_of d k \<noteq> None)"

definition dict_getitem :: "pydict \<Rightarrow> string \<Rightarrow> error + pyval" where
  "dict_getitem d k = (case map_of d k of None \<Rightarrow> Inl (KeyError k) | Some v \<Rightarrow> Inr v)"

text \<open>Truthiness, as tested by \<^verbatim>\<open>if x\<close> and \<^verbatim>\<open>x and y\<close>.\<close>

fun py_truthy :: "pyval \<Rightarrow> bool" where
  "py_truthy PNone = False"
| "py_truthy (PBool b) = b"
| "py_truthy (PInt i) = (i \<noteq> 0)"
| "py_truthy (PFloat r) = (r \<noteq> 0)"
| "py_truthy (PStr s) = (s \<noteq> [])"

text \<open>
  The builtin \<^verbatim>\<open>int(x)\<close>. On a string it skips surrounding whitespace (tab, line feed,
  vertical tab, form feed, carriage return and space, and of the code points from 128 on
  the next-line and no-break-space characters; the separators \<^verbatim>\<open>0x1C\<close> to \<^verbatim>\<open>0x1F\<close> are not
  skipped), then accepts an optional sign and decimal digits in which single underscores
  may separate digits. Anything else is a \<^verbatim>\<open>ValueError\<close>, and so is a literal of more than
  4300 digits (the default of \<^verbatim>\<open>sys.int_max_str_digits\<close>). A float is truncated towards
  zero.
\<close>

definition py_isspace :: "char \<Rightarrow> bool" where
  "py_isspace c = (c \<in> set [CHR 0x09, CHR 0x0A, CHR 0x0B, CHR 0x0C, CHR 0x0D, CHR 0x20,
                            CHR 0x85, CHR 0xA0])"

definition py_strip :: "string \<Rightarrow> string" where
  "py_strip s = rev (dropWhile py_isspace (rev (dropWhile py_isspace s)))"

definition digit_val :: "char \<Rightarrow> nat option" where
  "digit_val c =
     (let n = (of_char c :: nat) in if 48 \<le> n \<and> n \<le> 57 then Some (n - 48) else None)"

fun parse_digits :: "string \<Rightarrow> nat \<Rightarrow> bool \<Rightarrow> nat option" where
  "parse_digits [] acc prev_digit = (if prev_digit then Some acc else None)"
| "parse_digits (c # cs) acc prev_digit =
     (if c = CHR ''_''
      then (if prev_digit \<and> cs \<noteq> [] then parse_digits cs acc False else None)
      else (case digit_val c of
              None \<Rightarrow> None
            | Some d \<Rightarrow> parse_digits cs (10 * acc + d) True))"

definition int_max_str_digits :: nat where
  "int_max_str_digits = 4300"

definition count_digits :: "string \<Rightarrow> nat" where
  "count_digits s = length (filter (\<lambda>c. digit_val c \<noteq> None) s)"

definition int_of_str :: "string \<Rightarrow> int option" where
  "int_of_str s =
     (case py_strip s of
        [] \<Rightarrow> None
      | c # cs \<Rightarrow>
          if int_max_str_digits < count_digits (c # cs) then None
          else if c = CHR ''-'' then map_option (\<lambda>n. - int n) (parse_digits cs 0 False)
          else if c = CHR ''+'' then map_option int (parse_digits cs 0 False)
          else map_option int (parse_digits (c # cs) 0 False))"

fun py_int :: "pyval \<Rightarrow> error + int" where
  "py_int PNone = Inl TypeError"
| "py_int (PBool b) = Inr (if b then 1 else 0)"
| "py_int (PInt i) = Inr i"
| "py_int (PFloat r) = Inr (if r < 0 then - \<lfloor>- r\<rfloor> else \<lfloor>r\<rfloor>)"
| "py_int (PStr s) =
     (case int_of_str s of None \<Rightarrow> Inl (ValueError InvalidLiteralForInt) | Some n \<Rightarrow> Inr n)"

text \<open>
  Ordering, as used by the builtins \<^verbatim>\<open>min\<close> and \<^verbatim>\<open>max\<close>: numbers (booleans
  included) compare by value, strings with strings lexicographically, and any other
  pairing raises \<^verbatim>\<open>TypeError\<close>. \<^verbatim>\<open>min(a, b)\<close> keeps \<open>a\<close> unless \<open>b < a\<close>, and
  \<^verbatim>\<open>max(a, b)\<close> keeps \<open>a\<close> unless \<open>b > a\<close>.
\<close>

fun py_num :: "pyval \<Rightarrow> rat option" where
  "py_num (PBool b) = Some (if b then 1 else 0)"
| "py_num (PInt i) = Some (of_int i)"
| "py_num (PFloat r) = Some r"
| "py_num PNone = None"
| "py_num (PStr s) = None"

definition py_lt :: "pyval \<Rightarrow> pyval \<Rightarrow> error + bool" where
  "py_lt a b =
     (case (py_num a, py_num b) of
        (Some x, Some y) \<Rightarrow> Inr (x < y)
      | _ \<Rightarrow> (case (a, b) of
                (PStr s, PStr t) \<Rightarrow> Inr (s < t)
              | _ \<Rightarrow> Inl TypeError))"

definition py_min :: "pyval \<Rightarrow> pyval \<Rightarrow> error + pyval" where
  "py_min a b = (case py_lt b a of Inl e \<Rightarrow> Inl e | Inr lt \<Rightarrow> Inr (if lt then b else a))"

definition py_max :: "pyval \<Rightarrow> pyval \<Rightarrow> error + pyval" where
  "py_max a b = (case py_lt a b of Inl e \<Rightarrow> Inl e | Inr gt \<Rightarrow> Inr (if gt then b else a))"

definition sys_maxsize :: int where
  "sys_maxsize = 9223372036854775807"

section \<open>Configuration and construction\<close>

text \<open>
  An \<^verbatim>\<open>Iterable[str]\<close> that a setter yields is a sequence (a list or a tuple: it can be
  iterated again and is false when empty), a one-shot iterator over keys that are already
  fixed (always true, and exhausted once it has been iterated), or a one-shot iterator
  that is lazy: a generator whose body runs when its first element is asked for and
  computes the keys from the record's dictionary as it is at that moment.
  \<open>elements xs d\<close> is what a \<^verbatim>\<open>for\<close> loop over \<open>xs\<close> yields when it starts with the
  dictionary being \<open>d\<close>; \<open>truthy_iterable\<close> is the test \<^verbatim>\<open>if xs\<close>;
  \<open>contains_after_iteration xs k\<close> is the test \<^verbatim>\<open>k in xs\<close> made after a \<^verbatim>\<open>for\<close> loop has
  run over \<open>xs\<close> to its end. An iterator that reads the dictionary again between two of
  its elements, while the tag loop removes keys, is not represented.
\<close>

datatype 'a iterable = Sequence "'a list" | Generator "'a list" | Lazy "pydict \<Rightarrow> 'a list"

fun elements :: "'a iterable \<Rightarrow> pydict \<Rightarrow> 'a list" where
  "elements (Sequence xs) d = xs"
| "elements (Generator xs) d = xs"
| "elements (Lazy g) d = g d"

fun truthy_iterable :: "'a iterable \<Rightarrow> bool" where
  "truthy_iterable (Sequence xs) = (xs \<noteq> [])"
| "truthy_iterable (Generator xs) = True"
| "truthy_iterable (Lazy g) = True"

fun contains_after_iteration :: "'a iterable \<Rightarrow> 'a \<Rightarrow> bool" where
  "contains_after_iteration (Sequence xs) k = (k \<in> set xs)"
| "contains_after_iteration (Generator xs) k = False"
| "contains_after_iteration (Lazy g) k = False"

text \<open>
  A setter is either a constant or a single-argument callable on the record value
  (\<^verbatim>\<open>MeasurementSetter\<close>, \<^verbatim>\<open>FieldsSetter\<close>, \<^verbatim>\<open>TagsSetter\<close>). A constant list of keys is a
  list, as the docstring has it (an iterable (list) of strings); a callable returns
  any iterable of strings, a new one at each call, and is taken to be a pure function
  that returns. Of the constructor's arguments those that reach \<^verbatim>\<open>write\<close> are kept;
  \<^verbatim>\<open>batch_size\<close> is a natural number (a negative chunk size is left out).
\<close>

datatype ('s, 'd) setter = Static 's | Callable "pydict \<Rightarrow> 'd"

datatype write_precision = MS | NS | US | S

definition TIME_PRECISIONS :: "(string \<times> write_precision) list" where
  "TIME_PRECISIONS = [(''ms'', MS), (''ns'', NS), (''us'', US), (''s'', S)]"

definition time_args :: "string list" where
  "time_args = [''ms'', ''ns'', ''us'', ''s'']"

record sink_args =
  arg_measurement :: "(string, string) setter"
  arg_fields_keys :: "(string list, string iterable) setter"
  arg_tags_keys :: "(string list, string iterable) setter"
  arg_time_key :: "string option"
  arg_time_precision :: string
  arg_allow_missing_fields :: bool
  arg_include_metadata_tags :: bool
  arg_batch_size :: nat

record sink =
  self_measurement :: "pydict \<Rightarrow> string"
  self_fields_keys :: "pydict \<Rightarrow> string iterable"
  self_tags_keys :: "pydict \<Rightarrow> string iterable"
  self_include_metadata_tags :: bool
  self_time_key :: "string option"
  self_write_precision :: write_precision
  self_batch_size :: nat
  self_allow_missing_fields :: bool

definition measurement_callable :: "(string, string) setter \<Rightarrow> (pydict \<Rightarrow> string)" where
  "measurement_callable setter =
     (case setter of Callable f \<Rightarrow> f | Static c \<Rightarrow> (\<lambda>value. c))"

definition fields_callable ::
  "(string list, string iterable) setter \<Rightarrow> (pydict \<Rightarrow> string iterable)" where
  "fields_callable setter =
     (case setter of Callable f \<Rightarrow> f | Static c \<Rightarrow> (\<lambda>value. Sequence c))"

definition tags_callable ::
  "(string list, string iterable) setter \<Rightarrow> (pydict \<Rightarrow> string iterable)" where
  "tags_callable setter =
     (case setter of Callable f \<Rightarrow> f | Static c \<Rightarrow> (\<lambda>value. Sequence c))"

text \<open>
  \<^verbatim>\<open>fields_tags_keys_overlap = set(fields_keys) & set(tags_keys)\<close>, computed only when
  neither setter is callable.
\<close>

definition fields_tags_keys_overlap :: "string list \<Rightarrow> string list \<Rightarrow> string list" where
  "fields_tags_keys_overlap fks tks = filter (\<lambda>k. k \<in> set tks) (remdups fks)"

definition make_sink :: "sink_args \<Rightarrow> write_precision \<Rightarrow> sink" where
  "make_sink a wp =
     \<lparr> self_measurement = measurement_callable (arg_measurement a),
       self_fields_keys = fields_callable (arg_fields_keys a),
       self_tags_keys = tags_callable (arg_tags_keys a),
       self_include_metadata_tags = arg_include_metadata_tags a,
       self_time_key = arg_time_key a,
       self_write_precision = wp,
       self_batch_size = arg_batch_size a,
       self_allow_missing_fields = arg_allow_missing_fields a \<rparr>"

text \<open>
  \<^verbatim>\<open>InfluxDB3Sink.__init__\<close>: the time precision is checked first, then the overlap of
  two static key lists (the test is skipped as soon as one setter is callable); the
  client arguments it stores play no part in \<^verbatim>\<open>write\<close>.
\<close>

fun callable :: "('s, 'd) setter \<Rightarrow> bool" where
  "callable (Callable f) = True"
| "callable (Static c) = False"

definition static_keys_overlap :: "sink_args \<Rightarrow> bool" where
  "static_keys_overlap a =
     (case (arg_fields_keys a, arg_tags_keys a) of
        (Static fks, Static tks) \<Rightarrow> fields_tags_keys_overlap fks tks \<noteq> []
      | _ \<Rightarrow> False)"

definition init :: "sink_args \<Rightarrow> error + sink" where
  "init a =
     (if arg_time_precision a \<notin> set time_args then Inl (ValueError InvalidTimePrecision)
      else if \<not> callable (arg_fields_keys a) \<and> \<not> callable (arg_tags_keys a)
              \<and> static_keys_overlap a
      then Inl (ValueError OverlappingKeys)
      else (case map_of TIME_PRECISIONS (arg_time_precision a) of
              None \<Rightarrow> Inl (KeyError (arg_time_precision a))
            | Some wp \<Rightarrow> Inr (make_sink a wp)))"

section \<open>Transforming one record\<close>

text \<open>
  Of a batch's item \<^verbatim>\<open>write\<close> reads the value, the key and the timestamp (headers and
  offset are not used), and of the batch its topic and partition. A point is the
  dictionary with the keys \<^verbatim>\<open>measurement\<close>, \<^verbatim>\<open>tags\<close>, \<^verbatim>\<open>fields\<close> and \<^verbatim>\<open>time\<close> that is
  appended to \<^verbatim>\<open>records\<close>.
\<close>

record sink_item =
  item_value :: pydict
  item_key :: pyval
  item_timestamp :: int

record sink_batch =
  topic :: string
  partition :: int
  items :: "sink_item list"

record point =
  pt_measurement :: string
  pt_tags :: pydict
  pt_fields :: pydict
  pt_time :: pyval

text \<open>
  The loop \<^verbatim>\<open>for tag_key in _tags_keys: tag = value.pop(tag_key); tags[tag_key] = tag\<close>.
  It works on the record's own dictionary, so the dictionary as it stands is returned
  also when a key is missing and \<^verbatim>\<open>pop\<close> raises.
\<close>

fun pop_tags :: "string list \<Rightarrow> pydict \<Rightarrow> pydict \<Rightarrow> pydict \<times> (error + pydict)" where
  "pop_tags [] value tags = (value, Inr tags)"
| "pop_tags (tag_key # ks) value tags =
     (case map_of value tag_key of
        None \<Rightarrow> (value, Inl (KeyError tag_key))
      | Some tag \<Rightarrow> pop_tags ks (AList.delete tag_key value) (AList.update tag_key tag tags))"

text \<open>
  The dictionary comprehension
  \<^verbatim>\<open>{k: value[k] for k in _fields_keys if (k in value or not allow) and k not in _tags_keys}\<close>,
  over the elements that the field keys yield. It runs after the tag loop has iterated
  \<^verbatim>\<open>_tags_keys\<close> to its end.
\<close>

fun select_fields ::
  "pydict \<Rightarrow> string iterable \<Rightarrow> bool \<Rightarrow> string list \<Rightarrow> pydict \<Rightarrow> error + pydict" where
  "select_fields value tks allow [] acc = Inr acc"
| "select_fields value tks allow (field_key # ks) acc =
     (if (dict_contains value field_key \<or> \<not> allow) \<and> \<not> contains_after_iteration tks field_key
      then (case dict_getitem value field_key of
              Inl e \<Rightarrow> Inl e
            | Inr v \<Rightarrow> select_fields value tks allow ks (AList.update field_key v acc))
      else select_fields value tks allow ks acc)"

definition metadata_tags :: "pyval \<Rightarrow> string \<Rightarrow> int \<Rightarrow> pydict \<Rightarrow> pydict" where
  "metadata_tags key tp pn tgs =
     AList.update ''__partition'' (PInt pn)
       (AList.update ''__topic'' (PStr tp)
         (AList.update ''__key'' key tgs))"

text \<open>
  The body of \<^verbatim>\<open>for item in write_batch\<close> up to the construction of the record. The
  three resolved functions are called on the value first; the tag keys are iterated by
  the tag loop, which starts on the value as it arrived, and the field keys by the
  comprehension, on the value that the tag loop left. The first component of the result
  is the item's value dictionary afterwards.
\<close>

definition transform :: "sink \<Rightarrow> string \<Rightarrow> int \<Rightarrow> sink_item \<Rightarrow> pydict \<times> (error + point)" where
  "transform self tp pn item =
     (let value = item_value item;
          m = self_measurement self value;
          tks = self_tags_keys self value;
          fks = self_fields_keys self value
      in case pop_tags (elements tks value) value [] of
           (value', Inl e) \<Rightarrow> (value', Inl e)
         | (value', Inr tags0) \<Rightarrow>
             (let tags1 = (if self_include_metadata_tags self
                           then metadata_tags (item_key item) tp pn tags0 else tags0)
              in case (if truthy_iterable fks
                       then select_fields value' tks (self_allow_missing_fields self)
                              (elements fks value') []
                       else Inr value') of
                   Inl e \<Rightarrow> (value', Inl e)
                 | Inr flds \<Rightarrow>
                     (case (case self_time_key self of
                              Some time_key \<Rightarrow> dict_getitem value' time_key
                            | None \<Rightarrow> Inr (PInt (item_timestamp item))) of
                        Inl e \<Rightarrow> (value', Inl e)
                      | Inr ts \<Rightarrow>
                          (value', Inr \<lparr> pt_measurement = m, pt_tags = tags1,
                                         pt_fields = flds, pt_time = ts \<rparr>))))"

section \<open>Writing a batch\<close>

text \<open>
  What \<^verbatim>\<open>write\<close> does to the outside, in order: a reading of \<^verbatim>\<open>time.monotonic()\<close>, a
  call of \<^verbatim>\<open>client.write(record=records, write_precision=...)\<close> together with the
  exception it raised (if any), a line logged with the number of records and the
  smallest and largest timestamp of the chunk. The elapsed time printed in the log
  line is not represented.
\<close>

datatype event =
    Monotonic
  | ClientWrite "point list" write_precision "client_exc option"
  | LogInfo nat pyval pyval

text \<open>
  The destination client: from its state and the arguments of the call, the exception
  it raises (if any) and its next state.
\<close>

type_synonym 'c client = "'c \<Rightarrow> point list \<Rightarrow> write_precision \<Rightarrow> client_exc option \<times> 'c"

text \<open>
  The inner loop over one chunk: every item is transformed, its point appended to
  \<^verbatim>\<open>records\<close>, and the running minimum and maximum of the timestamps updated. The
  items come back with the value dictionaries as the loop left them.
\<close>

fun process_items ::
  "sink \<Rightarrow> string \<Rightarrow> int \<Rightarrow> sink_item list \<Rightarrow> point list \<times> pyval \<times> pyval
     \<Rightarrow> sink_item list \<times> (error + point list \<times> pyval \<times> pyval)" where
  "process_items self tp pn [] acc = ([], Inr acc)"
| "process_items self tp pn (item # rest) (records, min_timestamp, max_timestamp) =
     (case transform self tp pn item of
        (value', Inl e) \<Rightarrow> (item\<lparr>item_value := value'\<rparr> # rest, Inl e)
      | (value', Inr record) \<Rightarrow>
          (case py_min (pt_time record) min_timestamp of
             Inl e \<Rightarrow> (item\<lparr>item_value := value'\<rparr> # rest, Inl e)
           | Inr mn \<Rightarrow>
               (case py_max (pt_time record) max_timestamp of
                  Inl e \<Rightarrow> (item\<lparr>item_value := value'\<rparr> # rest, Inl e)
                | Inr mx \<Rightarrow>
                    (case process_items self tp pn rest (records @ [record], mn, mx) of
                       (rest', r) \<Rightarrow> (item\<lparr>item_value := value'\<rparr> # rest', r)))))"

text \<open>
  The handler \<^verbatim>\<open>except influxdb_client_3.InfluxDBError as exc\<close>: the exception that
  leaves \<^verbatim>\<open>write\<close> when the client raised \<open>exc\<close>. Exceptions of other classes are not
  caught.
\<close>

definition is_backpressure :: "client_exc \<Rightarrow> bool" where
  "is_backpressure exc =
     (case exc of
        InfluxDBError resp ra \<Rightarrow>
          (case resp of None \<Rightarrow> False | Some r \<Rightarrow> status r = 429 \<and> py_truthy ra)
      | OtherException name \<Rightarrow> False)"

definition exc_retry_after :: "client_exc \<Rightarrow> pyval" where
  "exc_retry_after exc = (case exc of InfluxDBError resp ra \<Rightarrow> ra | OtherException name \<Rightarrow> PNone)"

definition on_write_error :: "client_exc \<Rightarrow> string \<Rightarrow> int \<Rightarrow> error" where
  "on_write_error exc tp pn =
     (if is_backpressure exc
      then (case py_int (exc_retry_after exc) of
              Inl e \<Rightarrow> e
            | Inr n \<Rightarrow> SinkBackpressureError n tp pn)
      else Propagated exc)"

text \<open>
  The outer loop \<^verbatim>\<open>for write_batch in batch.iter_chunks(n=self._batch_size)\<close>, over the
  chunks still to come. The result holds the items of these chunks afterwards, the
  client's state, the events in order, and the exception raised (if any).
\<close>

fun write_chunks ::
  "sink \<Rightarrow> 'c client \<Rightarrow> string \<Rightarrow> int \<Rightarrow> sink_item list list \<Rightarrow> 'c
     \<Rightarrow> sink_item list \<times> 'c \<times> event list \<times> error option" where
  "write_chunks self cl tp pn [] c = ([], c, [], None)"
| "write_chunks self cl tp pn (write_batch # chunks) c =
     (case process_items self tp pn write_batch ([], PInt sys_maxsize, PInt (- 1)) of
        (its, Inl e) \<Rightarrow> (its @ concat chunks, c, [], Some e)
      | (its, Inr (records, mn, mx)) \<Rightarrow>
          (case cl c records (self_write_precision self) of
             (Some exc, c') \<Rightarrow>
               (its @ concat chunks, c',
                [Monotonic, ClientWrite records (self_write_precision self) (Some exc)],
                Some (on_write_error exc tp pn))
           | (None, c') \<Rightarrow>
               (case write_chunks self cl tp pn chunks c' of
                  (its', c'', evs, r) \<Rightarrow>
                    (its @ its', c'',
                     [Monotonic, ClientWrite records (self_write_precision self) None,
                      Monotonic, LogInfo (length records) mn mx] @ evs,
                     r))))"

text \<open>
  Modelled from the spec: \<^verbatim>\<open>SinkBatch.iter_chunks\<close>, which lives in the sinks' base module.
  The batch is split into consecutive chunks of at most \<open>n\<close> records, in order; only the
  last chunk may be smaller, and an empty batch has no chunk, whatever the chunk size. A
  chunk size below one admits no chunk of a batch that has records: the iteration raises
  \<^verbatim>\<open>ValueError\<close> when the loop asks for the first chunk.
\<close>

fun chunks_of :: "nat \<Rightarrow> 'a list \<Rightarrow> 'a list list" where
  "chunks_of n xs =
     (if n = 0 \<or> xs = [] then [] else take n xs # chunks_of n (drop n xs))"

declare chunks_of.simps [simp del]

definition iter_chunks :: "nat \<Rightarrow> 'a list \<Rightarrow> error + 'a list list" where
  "iter_chunks n xs =
     (if xs = [] then Inr []
      else if n < 1 then Inl (ValueError ChunkSizeBelowOne)
      else Inr (chunks_of n xs))"

record 'c outcome =
  out_items :: "sink_item list"
  out_client :: 'c
  out_events :: "event list"
  out_raised :: "error option"

text \<open>
  \<^verbatim>\<open>InfluxDB3Sink.write\<close> (\<open>write\<close> is a keyword of Isar). The batch's items are objects
  shared with the caller, so the outcome reports them too: the items of the chunks that
  were reached as the loops left them, the others as they were.
\<close>

definition sink_write :: "sink \<Rightarrow> 'c client \<Rightarrow> sink_batch \<Rightarrow> 'c \<Rightarrow> 'c outcome" where
  "sink_write self cl batch c =
     (case iter_chunks (self_batch_size self) (items batch) of
        Inl e \<Rightarrow>
          \<lparr> out_items = items batch, out_client = c, out_events = [], out_raised = Some e \<rparr>
      | Inr chunks \<Rightarrow>
          (case write_chunks self cl (topic batch) (partition batch) chunks c of
             (its, c', evs, r) \<Rightarrow>
               \<lparr> out_items = its, out_client = c', out_events = evs, out_raised = r \<rparr>))"

definition client_calls :: "event list \<Rightarrow> point list list" where
  "client_calls evs = concat (map (\<lambda>e. case e of ClientWrite rs wp r \<Rightarrow> [rs] | _ \<Rightarrow> []) evs)"

section \<open>Auxiliary notions for the statements\<close>

text \<open>The dictionary \<open>d\<close> without the entries whose key is in \<open>ks\<close>, in the same order.\<close>

definition drop_keys :: "string list \<Rightarrow> pydict \<Rightarrow> pydict" where
  "drop_keys ks d = filter (\<lambda>(k, v). k \<notin> set ks) d"

text \<open>
  The condition under which the transformation of an item completes, read off the
  item's original value: every resolved tag key is a key of the value and none is
  repeated; under the strict policy every field key that the tag test does not filter out
  is a key of the value without the tag keys; and so is the time key, if one is set.
\<close>

definition transform_completes :: "sink \<Rightarrow> sink_item \<Rightarrow> bool" where
  "transform_completes self item \<longleftrightarrow>
     (let value = item_value item;
          tks = self_tags_keys self value;
          fks = self_fields_keys self value;
          value' = drop_keys (elements tks value) value
      in distinct (elements tks value) \<and> set (elements tks value) \<subseteq> fst ` set value
         \<and> (truthy_iterable fks \<and> \<not> self_allow_missing_fields self \<longrightarrow>
              (\<forall>k \<in> set (elements fks value').
                 \<not> contains_after_iteration tks k \<longrightarrow> k \<in> fst ` set value'))
         \<and> (case self_time_key self of
               None \<Rightarrow> True
             | Some time_key \<Rightarrow> time_key \<in> fst ` set value'))"

text \<open>The point that the transformation of an item emits, if it completes.\<close>

definition emitted :: "sink \<Rightarrow> string \<Rightarrow> int \<Rightarrow> sink_item \<Rightarrow> point option" where
  "emitted self tp pn item =
     (case snd (transform self tp pn item) of Inl e \<Rightarrow> None | Inr p \<Rightarrow> Some p)"

text \<open>
  The item as the tag loop leaves it when its transformation completes: the value without
  the resolved tag keys, the rest as before.
\<close>

definition item_after :: "sink \<Rightarrow> sink_item \<Rightarrow> sink_item" where
  "item_after self item =
     item\<lparr> item_value :=
       drop_keys (elements (self_tags_keys self (item_value item)) (item_value item)) (item_value item) \<rparr>"

text \<open>
  The events of one chunk that is written without an exception, with the timestamps of
  the log line blanked, and the blanking of the timestamps in a sequence of events.
\<close>

definition timed_write :: "write_precision \<Rightarrow> point list \<Rightarrow> event list" where
  "timed_write wp records =
     [Monotonic, ClientWrite records wp None, Monotonic, LogInfo (length records) PNone PNone]"

fun erase_stats :: "event \<Rightarrow> event" where
  "erase_stats (LogInfo n mn mx) = LogInfo n PNone PNone"
| "erase_stats Monotonic = Monotonic"
| "erase_stats (ClientWrite records wp r) = ClientWrite records wp r"

text \<open>
  The destination client run again, from a given state, on the calls that a sequence of
  events records: whether it answers each call as the event says, and the state it ends
  in.
\<close>

fun replay :: "'c client \<Rightarrow> 'c \<Rightarrow> event list \<Rightarrow> bool \<times> 'c" where
  "replay cl c [] = (True, c)"
| "replay cl c (ClientWrite records wp r # evs) =
     (case cl c records wp of
        (r', c') \<Rightarrow> (case replay cl c' evs of (ok, c'') \<Rightarrow> (r' = r \<and> ok, c'')))"
| "replay cl c (Monotonic # evs) = replay cl c evs"
| "replay cl c (LogInfo n mn mx # evs) = replay cl c evs"

text \<open>
  What the tag loop may have done to an item, whether or not its transformation
  completed: the resolved tag keys that the value no longer has were removed from it, and
  nothing else changed.
\<close>

definition tags_removed :: "sink \<Rightarrow> sink_item \<Rightarrow> sink_item \<Rightarrow> bool" where
  "tags_removed self item item' \<longleftrightarrow>
     item_key item' = item_key item \<and> item_timestamp item' = item_timestamp item
     \<and> item_value item'
         = drop_keys (filter (\<lambda>k. \<not> dict_contains (item_value item') k)
                             (elements (self_tags_keys self (item_value item)) (item_value item)))
                     (item_value item)"

section \<open>Example records and sinks\<close>

definition ex_value :: pydict where
  "ex_value = [(''host'', PStr ''a''), (''temp'', PInt 21), (''__key'', PStr ''user'')]"

definition ex_item :: sink_item where
  "ex_item = \<lparr> item_value = ex_value, item_key = PStr ''k1'', item_timestamp = 1700 \<rparr>"

text \<open>
  A sink whose measurement and field keys are computed from the record (every key of
  the record when it has a host) and whose tag keys are a list.
\<close>

definition dyn_sink :: sink where
  "dyn_sink =
     \<lparr> self_measurement = (\<lambda>value. if dict_contains value ''host'' then ''hosts'' else ''other''),
       self_fields_keys = (\<lambda>value. if dict_contains value ''host''
                                    then Sequence (map fst value) else Sequence [''none'']),
       self_tags_keys = (\<lambda>value. Sequence [''host'', ''__key'']),
       self_include_metadata_tags = True,
       self_time_key = None,
       self_write_precision = MS,
       self_batch_size = 2,
       self_allow_missing_fields = False \<rparr>"

definition plain_args :: sink_args where
  "plain_args =
     \<lparr> arg_measurement = Static ''cpu'',
       arg_fields_keys = Static [],
       arg_tags_keys = Static [''host''],
       arg_time_key = None,
       arg_time_precision = ''ms'',
       arg_allow_missing_fields = False,
       arg_include_metadata_tags = False,
       arg_batch_size = 1000 \<rparr>"

definition plain_sink :: sink where
  "plain_sink = make_sink plain_args MS"

text \<open>
  Field keys computed by a callable that returns an empty one-shot iterator, as
  \<^verbatim>\<open>lambda value: iter(())\<close> does.
\<close>

definition empty_iterator_args :: sink_args where
  "empty_iterator_args = plain_args\<lparr> arg_fields_keys := Callable (\<lambda>value. Generator []) \<rparr>"

definition empty_iterator_sink :: sink where
  "empty_iterator_sink = make_sink empty_iterator_args MS"

text \<open>
  Static field keys that name the host, with tag keys computed by a callable that returns
  a list: the constructor's overlap test does not apply.
\<close>

definition overlap_args :: sink_args where
  "overlap_args =
     \<lparr> arg_measurement = Static ''cpu'',
       arg_fields_keys = Static [''host'', ''temp''],
       arg_tags_keys = Callable (\<lambda>value. Sequence [''host'']),
       arg_time_key = None,
       arg_time_precision = ''ms'',
       arg_allow_missing_fields = False,
       arg_include_metadata_tags = False,
       arg_batch_size = 1000 \<rparr>"

definition overlap_sink :: sink where
  "overlap_sink = make_sink overlap_args MS"



text \<open>
  Field keys computed from the record by a generator function, whose body runs when the
  keys are iterated,

  \<^verbatim>\<open>def fields_keys(value):\<close>

  \<^verbatim>\<open>    if "host" in value: yield "temp"\<close>

  \<^verbatim>\<open>    else: yield "none"\<close>

  and the same keys computed when the function is called and returned as a list.
\<close>

definition lazy_fields_args :: sink_args where
  "lazy_fields_args =
     plain_args\<lparr> arg_fields_keys :=
       Callable (\<lambda>value. Lazy (\<lambda>d. if dict_contains d ''host'' then [''temp''] else [''none''])) \<rparr>"

definition lazy_fields_sink :: sink where
  "lazy_fields_sink = make_sink lazy_fields_args MS"

definition eager_fields_args :: sink_args where
  "eager_fields_args =
     plain_args\<lparr> arg_fields_keys :=
       Callable (\<lambda>value. Sequence (if dict_contains value ''host'' then [''temp''] else [''none''])) \<rparr>"

definition eager_fields_sink :: sink where
  "eager_fields_sink = make_sink eager_fields_args MS"




text \<open>Two static key lists that share the host key.\<close>

definition clash_args :: sink_args where
  "clash_args = overlap_args\<lparr> arg_tags_keys := Static [''host''] \<rparr>"

text \<open>A batch of one record on partition 2 of topic \<open>t\<close>.\<close>

definition plain_batch :: sink_batch where
  "plain_batch = \<lparr> topic = ''t'', partition = 2, items = [ex_item] \<rparr>"

text \<open>
  A client that accepts every write and keeps what it was sent, and one that raises the
  given exception at every call and counts the calls.
\<close>

definition recording_client :: "(point list list) client" where
  "recording_client c records wp = (None, c @ [records])"

definition failing_client :: "client_exc \<Rightarrow> nat client" where
  "failing_client exc c records wp = (Some exc, Suc c)"

text \<open>The point that \<open>plain_sink\<close> makes of \<open>ex_item\<close>.\<close>

definition plain_point :: point where
  "plain_point = \<lparr> pt_measurement = ''cpu'', pt_tags = [(''host'', PStr ''a'')],
                    pt_fields = [(''temp'', PInt 21), (''__key'', PStr ''user'')],
                    pt_time = PInt 1700 \<rparr>"

text \<open>A batch of 2500 records, numbered in order.\<close>

definition big_item :: "nat \<Rightarrow> sink_item" where
  "big_item i = \<lparr> item_value = [(''host'', PStr ''a''), (''temp'', PInt (int i))],
                   item_key = PNone, item_timestamp = int i \<rparr>"

definition big_batch :: sink_batch where
  "big_batch = \<lparr> topic = ''t'', partition = 2, items = map big_item [0..<2500] \<rparr>"

text \<open>The point that \<open>plain_sink\<close> makes of the record numbered \<open>i\<close>.\<close>

definition big_point :: "nat \<Rightarrow> point" where
  "big_point i = \<lparr> pt_measurement = ''cpu'', pt_tags = [(''host'', PStr ''a'')],
                    pt_fields = [(''temp'', PInt (int i))], pt_time = PInt (int i) \<rparr>"

text \<open>
  A destination failure with status 429 whose \<^verbatim>\<open>Retry-After\<close> header is an HTTP date, and
  one whose header is a number of seconds.
\<close>

definition http_date_429 :: client_exc where
  "http_date_429 =
     InfluxDBError (Some (Response 429)) (PStr ''Wed, 21 Oct 2015 07:28:00 GMT'')"

definition seconds_429 :: client_exc where
  "seconds_429 = InfluxDBError (Some (Response 429)) (PStr ''30'')"

section \<open>Properties of the dictionary operations\<close>

lemma drop_keys_Nil: "drop_keys [] d = d"
  by (simp add: drop_keys_def)

lemma drop_keys_Cons: "drop_keys (k # ks) d = drop_keys ks (AList.delete k d)"
  by (induction d) (auto simp: drop_keys_def)

lemma keys_drop_keys: "fst ` set (drop_keys ks d) = fst ` set d - set ks"
  by (induction d) (auto simp: drop_keys_def)

lemma keys_delete: "fst ` set (AList.delete k d) = fst ` set d - {k}"
  by (induction d) auto

lemma map_of_drop_keys: "map_of (drop_keys ks d) k = (if k \<in> set ks then None else map_of d k)"
  by (induction d) (auto simp: drop_keys_def)

lemma map_of_keys: "map_of d k \<noteq> None \<longleftrightarrow> k \<in> fst ` set d"
  by (simp add: map_of_eq_None_iff)

lemma pop_tags_value: "pop_tags ks v tg = (v', Inr tg') \<Longrightarrow> v' = drop_keys ks v"
proof (induction ks arbitrary: v tg)
  case Nil
  then show ?case by (simp add: drop_keys_Nil)
next
  case (Cons k ks)
  then show ?case by (auto simp: drop_keys_Cons split: option.splits)
qed

lemma pop_tags_error: "pop_tags ks v tg = (v', Inl e) \<Longrightarrow> \<exists>k. e = KeyError k"
  by (induction ks arbitrary: v tg) (auto split: option.splits)

lemma pop_tags_value_any:
  "pop_tags ks v tg = (v', r) \<Longrightarrow> \<exists>ks'. set ks' \<subseteq> set ks \<and> v' = drop_keys ks' v"
proof (induction ks arbitrary: v tg)
  case Nil
  then have "set [] \<subseteq> set ([]::string list) \<and> v' = drop_keys [] v"
    by (simp add: drop_keys_Nil)
  then show ?case by (rule exI)
next
  case (Cons k ks)
  show ?case
  proof (cases "map_of v k")
    case None
    with Cons.prems have "set [] \<subseteq> set (k # ks) \<and> v' = drop_keys [] v"
      by (simp add: drop_keys_Nil)
    then show ?thesis by (rule exI)
  next
    case (Some a)
    with Cons.prems have "pop_tags ks (AList.delete k v) (AList.update k a tg) = (v', r)" by simp
    from Cons.IH[OF this] obtain ks' where
      ks': "set ks' \<subseteq> set ks" "v' = drop_keys ks' (AList.delete k v)" by blast
    then have "set (k # ks') \<subseteq> set (k # ks) \<and> v' = drop_keys (k # ks') v"
      by (auto simp: drop_keys_Cons)
    then show ?thesis by (rule exI)
  qed
qed

lemma pop_tags_ok:
  "distinct ks \<Longrightarrow> set ks \<subseteq> fst ` set v \<Longrightarrow> \<exists>tg'. pop_tags ks v tg = (drop_keys ks v, Inr tg')"
proof (induction ks arbitrary: v tg)
  case Nil
  then show ?case by (simp add: drop_keys_Nil)
next
  case (Cons k ks)
  from Cons.prems have "k \<in> fst ` set v" by simp
  then have "k \<in> dom (map_of v)" by (simp add: dom_map_of_conv_image_fst)
  then obtain a where a: "map_of v k = Some a" by blast
  have sub: "set ks \<subseteq> fst ` set (AList.delete k v)"
    using Cons.prems unfolding keys_delete by auto
  have "distinct ks" using Cons.prems by simp
  from Cons.IH[OF this sub, of "AList.update k a tg"] a
  show ?case by (simp add: drop_keys_Cons)
qed

lemma pop_tags_needs:
  "pop_tags ks v tg = (v', Inr tg') \<Longrightarrow> distinct ks \<and> set ks \<subseteq> fst ` set v"
proof (induction ks arbitrary: v tg)
  case Nil
  then show ?case by simp
next
  case (Cons k ks)
  show ?case
  proof (cases "map_of v k")
    case None
    with Cons.prems show ?thesis by simp
  next
    case (Some a)
    with Cons.prems have r: "pop_tags ks (AList.delete k v) (AList.update k a tg) = (v', Inr tg')"
      by simp
    from Cons.IH[OF r] have d: "distinct ks" and s: "set ks \<subseteq> fst ` set (AList.delete k v)"
      by simp_all
    from s have "k \<notin> set ks" and "set ks \<subseteq> fst ` set v" by (auto simp: keys_delete)
    moreover from Some have "k \<in> fst ` set v" using map_of_keys[of v k] by simp
    ultimately show ?thesis using d by simp
  qed
qed

lemma pop_tags_tags:
  "pop_tags ks v tg = (v', Inr tg') \<Longrightarrow>
     map_of tg' k = (if k \<in> set ks then map_of v k else map_of tg k)"
proof (induction ks arbitrary: v tg)
  case Nil
  then show ?case by simp
next
  case (Cons k0 ks)
  show ?case
  proof (cases "map_of v k0")
    case None
    with Cons.prems show ?thesis by simp
  next
    case (Some a)
    with Cons.prems have r: "pop_tags ks (AList.delete k0 v) (AList.update k0 a tg) = (v', Inr tg')"
      by simp
    from pop_tags_needs[OF r] have "k0 \<notin> set ks" by (auto simp: keys_delete)
    with Cons.IH[OF r] Some show ?thesis
      by (auto simp: update_conv' delete_conv')
  qed
qed

lemma select_fields_error: "select_fields v tks allow fks acc = Inl e \<Longrightarrow> \<exists>k. e = KeyError k"
proof (induction fks arbitrary: acc)
  case Nil
  then show ?case by simp
next
  case (Cons k fks)
  then show ?case
    by (auto simp: dict_getitem_def split: if_splits sum.splits option.splits)
qed

lemma select_fields_result:
  "select_fields v tks allow fks acc = Inr f \<Longrightarrow>
     map_of f k = (if k \<in> set fks \<and> \<not> contains_after_iteration tks k \<and> map_of v k \<noteq> None
                   then map_of v k else map_of acc k)"
proof (induction fks arbitrary: acc)
  case Nil
  then show ?case by simp
next
  case (Cons a fks)
  show ?case
  proof (cases "(dict_contains v a \<or> \<not> allow) \<and> \<not> contains_after_iteration tks a")
    case True
    with Cons.prems obtain x where x: "dict_getitem v a = Inr x"
      and r: "select_fields v tks allow fks (AList.update a x acc) = Inr f"
      by (auto split: sum.splits)
    from x have m: "map_of v a = Some x" by (auto simp: dict_getitem_def split: option.splits)
    from Cons.IH[OF r] True m show ?thesis by (auto simp: update_conv')
  next
    case False
    with Cons.prems have r: "select_fields v tks allow fks acc = Inr f" by auto
    from Cons.IH[OF r] False show ?thesis by (auto simp: dict_contains_def)
  qed
qed

lemma select_fields_keys:
  assumes "select_fields v tks allow fks [] = Inr f"
  shows "fst ` set f \<subseteq> {k \<in> set fks. \<not> contains_after_iteration tks k} \<inter> fst ` set v"
proof
  fix k assume "k \<in> fst ` set f"
  with map_of_keys[of f k] have "map_of f k \<noteq> None" by blast
  with select_fields_result[OF assms, of k]
  have "k \<in> set fks \<and> \<not> contains_after_iteration tks k \<and> map_of v k \<noteq> None"
    by (auto split: if_splits)
  with map_of_keys[of v k]
  show "k \<in> {k \<in> set fks. \<not> contains_after_iteration tks k} \<inter> fst ` set v"
    by blast
qed

lemma select_fields_strict:
  "k \<in> set fks \<Longrightarrow> \<not> contains_after_iteration tks k \<Longrightarrow> map_of v k = None \<Longrightarrow>
     \<exists>k'. select_fields v tks False fks acc = Inl (KeyError k')"
proof (induction fks arbitrary: acc)
  case Nil
  then show ?case by simp
next
  case (Cons a fks)
  show ?case
  proof (cases "contains_after_iteration tks a")
    case True
    with Cons.prems have "k \<in> set fks" by auto
    from Cons.IH[OF this Cons.prems(2,3)] True show ?thesis by simp
  next
    case False
    show ?thesis
    proof (cases "map_of v a")
      case None
      with False show ?thesis by (simp add: dict_getitem_def)
    next
      case (Some x)
      with Cons.prems have "k \<in> set fks" by auto
      from Cons.IH[OF this Cons.prems(2,3)] False Some show ?thesis
        by (simp add: dict_getitem_def)
    qed
  qed
qed

lemma select_fields_complete:
  "allow \<or> (\<forall>k \<in> set fks. \<not> contains_after_iteration tks k \<longrightarrow> map_of v k \<noteq> None) \<Longrightarrow>
     \<exists>f. select_fields v tks allow fks acc = Inr f"
proof (induction fks arbitrary: acc)
  case Nil
  then show ?case by simp
next
  case (Cons a fks)
  have rest: "allow \<or> (\<forall>k \<in> set fks. \<not> contains_after_iteration tks k \<longrightarrow> map_of v k \<noteq> None)"
    using Cons.prems by auto
  show ?case
  proof (cases "(dict_contains v a \<or> \<not> allow) \<and> \<not> contains_after_iteration tks a")
    case True
    with Cons.prems have "map_of v a \<noteq> None" by (auto simp: dict_contains_def)
    then obtain x where x: "map_of v a = Some x" by blast
    from Cons.IH[OF rest, of "AList.update a x acc"] True x show ?thesis
      by (simp add: dict_getitem_def)
  next
    case False
    from Cons.IH[OF rest, of acc] False show ?thesis by auto
  qed
qed

lemma select_fields_complete_iff:
  "(\<exists>f. select_fields v tks allow fks acc = Inr f) \<longleftrightarrow>
     allow \<or> (\<forall>k \<in> set fks. \<not> contains_after_iteration tks k \<longrightarrow> map_of v k \<noteq> None)"
proof
  assume ex: "\<exists>f. select_fields v tks allow fks acc = Inr f"
  show "allow \<or> (\<forall>k \<in> set fks. \<not> contains_after_iteration tks k \<longrightarrow> map_of v k \<noteq> None)"
  proof (rule ccontr)
    assume "\<not> (allow \<or> (\<forall>k \<in> set fks. \<not> contains_after_iteration tks k \<longrightarrow> map_of v k \<noteq> None))"
    then obtain k where "\<not> allow" "k \<in> set fks" "\<not> contains_after_iteration tks k"
      "map_of v k = None" by auto
    with select_fields_strict[of k fks tks v acc] ex show False by auto
  qed
next
  assume "allow \<or> (\<forall>k \<in> set fks. \<not> contains_after_iteration tks k \<longrightarrow> map_of v k \<noteq> None)"
  then show "\<exists>f. select_fields v tks allow fks acc = Inr f" by (rule select_fields_complete)
qed


section \<open>Properties of the record transformation\<close>

lemma transform_pop_fail:
  "pop_tags (elements (self_tags_keys self (item_value item)) (item_value item)) (item_value item) [] = (w, Inl e) \<Longrightarrow>
     transform self tp pn item = (w, Inl e)"
  by (simp add: transform_def Let_def)

lemma transform_select_fail:
  "pop_tags (elements (self_tags_keys self (item_value item)) (item_value item)) (item_value item) [] = (w, Inr tags0) \<Longrightarrow>
   truthy_iterable (self_fields_keys self (item_value item)) \<Longrightarrow>
   select_fields w (self_tags_keys self (item_value item)) (self_allow_missing_fields self)
     (elements (self_fields_keys self (item_value item)) w) [] = Inl e \<Longrightarrow>
   transform self tp pn item = (w, Inl e)"
  by (simp add: transform_def Let_def)

lemma transform_ok:
  "pop_tags (elements (self_tags_keys self (item_value item)) (item_value item)) (item_value item) [] = (w, Inr tags0) \<Longrightarrow>
   (if truthy_iterable (self_fields_keys self (item_value item))
    then select_fields w (self_tags_keys self (item_value item)) (self_allow_missing_fields self)
           (elements (self_fields_keys self (item_value item)) w) []
    else Inr w) = Inr flds \<Longrightarrow>
   (case self_time_key self of
      Some time_key \<Rightarrow> dict_getitem w time_key
    | None \<Rightarrow> Inr (PInt (item_timestamp item))) = Inr ts \<Longrightarrow>
   transform self tp pn item =
     (w, Inr \<lparr> pt_measurement = self_measurement self (item_value item),
                pt_tags = (if self_include_metadata_tags self
                           then metadata_tags (item_key item) tp pn tags0 else tags0),
                pt_fields = flds, pt_time = ts \<rparr>)"
  by (simp add: transform_def Let_def)

lemma transform_Inr:
  assumes "transform self tp pn item = (v', Inr p)"
  shows "\<exists>tags0 flds ts.
           pop_tags (elements (self_tags_keys self (item_value item)) (item_value item)) (item_value item) []
             = (v', Inr tags0)
         \<and> (if truthy_iterable (self_fields_keys self (item_value item))
              then select_fields v' (self_tags_keys self (item_value item))
                     (self_allow_missing_fields self)
                     (elements (self_fields_keys self (item_value item)) v') []
              else Inr v') = Inr flds
         \<and> (case self_time_key self of
               Some time_key \<Rightarrow> dict_getitem v' time_key
             | None \<Rightarrow> Inr (PInt (item_timestamp item))) = Inr ts
         \<and> p = \<lparr> pt_measurement = self_measurement self (item_value item),
                 pt_tags = (if self_include_metadata_tags self
                            then metadata_tags (item_key item) tp pn tags0 else tags0),
                 pt_fields = flds, pt_time = ts \<rparr>"
proof -
  let ?tks = "self_tags_keys self (item_value item)"
  let ?fks = "self_fields_keys self (item_value item)"
  obtain w r where pr: "pop_tags (elements ?tks (item_value item)) (item_value item) [] = (w, r)"
    by (cases "pop_tags (elements ?tks (item_value item)) (item_value item) []")
  show ?thesis
  proof (cases r)
    case (Inl e)
    with pr assms show ?thesis by (simp add: transform_def)
  next
    case (Inr tags0)
    note t0 = this
    let ?sel = "(if truthy_iterable ?fks
              then select_fields w ?tks (self_allow_missing_fields self) (elements ?fks w) []
              else Inr w)"
    let ?tm = "(case self_time_key self of
               Some time_key \<Rightarrow> dict_getitem w time_key
             | None \<Rightarrow> Inr (PInt (item_timestamp item)))"
    show ?thesis
    proof (cases ?sel)
      case (Inl e)
      with pr t0 assms show ?thesis by (simp add: transform_def Let_def)
    next
      case (Inr flds)
      note fl = this
      show ?thesis
      proof (cases ?tm)
        case (Inl e)
        with pr t0 fl assms show ?thesis by (simp add: transform_def Let_def)
      next
        case (Inr ts)
        with pr t0 fl assms have "w = v'" and
          "p = \<lparr> pt_measurement = self_measurement self (item_value item),
                 pt_tags = (if self_include_metadata_tags self
                            then metadata_tags (item_key item) tp pn tags0 else tags0),
                 pt_fields = flds, pt_time = ts \<rparr>"
          by (auto simp add: transform_def Let_def)
        with pr t0 fl Inr show ?thesis by blast
      qed
    qed
  qed
qed

lemma transform_value:
  assumes "transform self tp pn item = (v', Inr p)"
  shows "v' = drop_keys (elements (self_tags_keys self (item_value item)) (item_value item)) (item_value item)"
proof -
  from transform_Inr[OF assms] obtain tags0 where
    "pop_tags (elements (self_tags_keys self (item_value item)) (item_value item)) (item_value item) []
       = (v', Inr tags0)"
    by blast
  then show ?thesis by (rule pop_tags_value)
qed

lemma transform_fst:
  "fst (transform self tp pn item) =
     fst (pop_tags (elements (self_tags_keys self (item_value item)) (item_value item)) (item_value item) [])"
  by (simp add: transform_def Let_def split: prod.splits sum.splits)

lemma transform_value_any:
  assumes "transform self tp pn item = (v', r)"
  shows "\<exists>ks'. set ks' \<subseteq> set (elements (self_tags_keys self (item_value item)) (item_value item))
               \<and> v' = drop_keys ks' (item_value item)"
proof -
  obtain w q where pr: "pop_tags (elements (self_tags_keys self (item_value item)) (item_value item))
                          (item_value item) [] = (w, q)"
    by (cases "pop_tags (elements (self_tags_keys self (item_value item)) (item_value item)) (item_value item) []")
  have "v' = w" using transform_fst[of self tp pn item] assms pr by simp
  with pop_tags_value_any[OF pr] show ?thesis by simp
qed

lemma transform_error:
  assumes "transform self tp pn item = (v', Inl e)"
  shows "\<exists>k. e = KeyError k"
proof -
  let ?tks = "self_tags_keys self (item_value item)"
  let ?fks = "self_fields_keys self (item_value item)"
  obtain w r where pr: "pop_tags (elements ?tks (item_value item)) (item_value item) [] = (w, r)"
    by (cases "pop_tags (elements ?tks (item_value item)) (item_value item) []")
  show ?thesis
  proof (cases r)
    case (Inl e')
    with pr assms have "e = e'" by (simp add: transform_def)
    with pop_tags_error pr Inl show ?thesis by blast
  next
    case (Inr tags0)
    note t0 = this
    let ?sel = "(if truthy_iterable ?fks
              then select_fields w ?tks (self_allow_missing_fields self) (elements ?fks w) []
              else Inr w)"
    let ?tm = "(case self_time_key self of
               Some time_key \<Rightarrow> dict_getitem w time_key
             | None \<Rightarrow> Inr (PInt (item_timestamp item)))"
    show ?thesis
    proof (cases ?sel)
      case (Inl e')
      with pr t0 assms have "e = e'" by (simp add: transform_def Let_def)
      moreover from Inl have "\<exists>k. e' = KeyError k"
        by (auto split: if_splits dest: select_fields_error)
      ultimately show ?thesis by simp
    next
      case (Inr flds)
      note fl = this
      show ?thesis
      proof (cases ?tm)
        case (Inl e')
        with pr t0 fl assms have "e = e'" by (simp add: transform_def Let_def)
        moreover from Inl have "\<exists>k. e' = KeyError k"
          by (auto simp: dict_getitem_def split: option.splits)
        ultimately show ?thesis by simp
      next
        case (Inr ts)
        with pr t0 fl assms show ?thesis by (simp add: transform_def Let_def)
      qed
    qed
  qed
qed

lemma transform_completes_imp:
  assumes "transform_completes self item"
  shows "\<exists>p. transform self tp pn item
               = (drop_keys (elements (self_tags_keys self (item_value item)) (item_value item)) (item_value item),
                  Inr p)"
proof -
  let ?v = "item_value item"
  let ?tks = "self_tags_keys self ?v"
  let ?fks = "self_fields_keys self ?v"
  let ?v' = "drop_keys (elements ?tks (item_value item)) ?v"
  from assms have d: "distinct (elements ?tks (item_value item))" and sub: "set (elements ?tks (item_value item)) \<subseteq> fst ` set ?v"
    and fl: "truthy_iterable ?fks \<and> \<not> self_allow_missing_fields self \<longrightarrow>
              (\<forall>k \<in> set (elements ?fks ?v'). \<not> contains_after_iteration ?tks k \<longrightarrow> k \<in> fst ` set ?v')"
    and tk: "(case self_time_key self of None \<Rightarrow> True | Some time_key \<Rightarrow> time_key \<in> fst ` set ?v')"
    by (simp_all add: transform_completes_def Let_def)
  from pop_tags_ok[OF d sub, of "[]"] obtain tags0 where
    pr: "pop_tags (elements ?tks (item_value item)) ?v [] = (?v', Inr tags0)" by blast
  have "\<exists>flds. (if truthy_iterable ?fks
        then select_fields ?v' ?tks (self_allow_missing_fields self) (elements ?fks ?v') []
        else Inr ?v') = Inr flds"
  proof (cases "truthy_iterable ?fks")
    case False
    then show ?thesis by simp
  next
    case True
    with fl map_of_keys[of ?v'] have "self_allow_missing_fields self
       \<or> (\<forall>k \<in> set (elements ?fks ?v'). \<not> contains_after_iteration ?tks k \<longrightarrow> map_of ?v' k \<noteq> None)"
      by blast
    from select_fields_complete[OF this, of "[]"] True show ?thesis by simp
  qed
  then obtain flds where sel: "(if truthy_iterable ?fks
        then select_fields ?v' ?tks (self_allow_missing_fields self) (elements ?fks ?v') []
        else Inr ?v') = Inr flds" by blast
  have "\<exists>ts. (case self_time_key self of
                  Some time_key \<Rightarrow> dict_getitem ?v' time_key
                | None \<Rightarrow> Inr (PInt (item_timestamp item))) = Inr ts"
  proof (cases "self_time_key self")
    case None
    then show ?thesis by simp
  next
    case (Some time_key)
    with tk have "time_key \<in> fst ` set ?v'" by simp
    with map_of_keys[of ?v' time_key] have "map_of ?v' time_key \<noteq> None" by blast
    with Some show ?thesis by (auto simp: dict_getitem_def)
  qed
  then obtain ts where tm: "(case self_time_key self of
                  Some time_key \<Rightarrow> dict_getitem ?v' time_key
                | None \<Rightarrow> Inr (PInt (item_timestamp item))) = Inr ts" by blast
  from transform_ok[OF pr sel tm] show ?thesis by blast
qed

lemma transform_Inr_completes:
  assumes "transform self tp pn item = (v', Inr p)"
  shows "transform_completes self item"
proof -
  let ?v = "item_value item"
  let ?tks = "self_tags_keys self ?v"
  let ?fks = "self_fields_keys self ?v"
  from transform_Inr[OF assms] obtain tags0 flds ts where
    pr: "pop_tags (elements ?tks (item_value item)) ?v [] = (v', Inr tags0)"
    and sel: "(if truthy_iterable ?fks
              then select_fields v' ?tks (self_allow_missing_fields self) (elements ?fks v') []
              else Inr v') = Inr flds"
    and tm: "(case self_time_key self of
               Some time_key \<Rightarrow> dict_getitem v' time_key
             | None \<Rightarrow> Inr (PInt (item_timestamp item))) = Inr ts"
    by blast
  have v': "v' = drop_keys (elements ?tks (item_value item)) ?v" by (rule pop_tags_value[OF pr])
  from pop_tags_needs[OF pr] have a: "distinct (elements ?tks (item_value item))"
    "set (elements ?tks (item_value item)) \<subseteq> fst ` set ?v" by simp_all
  have b: "\<forall>k \<in> set (elements ?fks v'). \<not> contains_after_iteration ?tks k \<longrightarrow> k \<in> fst ` set v'"
    if "truthy_iterable ?fks" "\<not> self_allow_missing_fields self"
  proof -
    from that sel have "\<exists>f. select_fields v' ?tks False (elements ?fks v') [] = Inr f" by auto
    then have "\<forall>k \<in> set (elements ?fks v'). \<not> contains_after_iteration ?tks k \<longrightarrow> map_of v' k \<noteq> None"
      unfolding select_fields_complete_iff by blast
    with map_of_keys[of v'] show ?thesis by blast
  qed
  have c: "(case self_time_key self of None \<Rightarrow> True | Some time_key \<Rightarrow> time_key \<in> fst ` set v')"
  proof (cases "self_time_key self")
    case None
    then show ?thesis by simp
  next
    case (Some time_key)
    with tm have "map_of v' time_key \<noteq> None"
      by (auto simp: dict_getitem_def split: option.splits)
    with Some map_of_keys[of v' time_key] show ?thesis by simp
  qed
  from b have b': "truthy_iterable ?fks \<and> \<not> self_allow_missing_fields self \<longrightarrow>
      (\<forall>k \<in> set (elements ?fks (drop_keys (elements ?tks (item_value item)) ?v)). \<not> contains_after_iteration ?tks k \<longrightarrow>
           k \<in> fst ` set (drop_keys (elements ?tks (item_value item)) ?v))"
    unfolding v' by blast
  from c have c': "(case self_time_key self of None \<Rightarrow> True
      | Some time_key \<Rightarrow> time_key \<in> fst ` set (drop_keys (elements ?tks (item_value item)) ?v))"
    unfolding v' .
  from a b' c' show ?thesis unfolding transform_completes_def Let_def by blast
qed


lemma emitted_Some_iff:
  "emitted self tp pn item = Some p \<longleftrightarrow> (\<exists>v'. transform self tp pn item = (v', Inr p))"
  by (cases "transform self tp pn item") (auto simp: emitted_def split: sum.splits)

lemma transform_point:
  assumes "transform self tp pn item = (v', Inr p)"
  shows "pt_measurement p = self_measurement self (item_value item)"
    and "map_of (pt_tags p) k =
           (if self_include_metadata_tags self \<and> k = ''__partition'' then Some (PInt pn)
            else if self_include_metadata_tags self \<and> k = ''__topic'' then Some (PStr tp)
            else if self_include_metadata_tags self \<and> k = ''__key'' then Some (item_key item)
            else if k \<in> set (elements (self_tags_keys self (item_value item)) (item_value item))
                 then map_of (item_value item) k else None)"
    and "truthy_iterable (self_fields_keys self (item_value item)) \<Longrightarrow>
           map_of (pt_fields p) k =
             (if k \<in> set (elements (self_fields_keys self (item_value item)) v')
                 \<and> \<not> contains_after_iteration (self_tags_keys self (item_value item)) k
              then map_of v' k else None)"
    and "\<not> truthy_iterable (self_fields_keys self (item_value item)) \<Longrightarrow> pt_fields p = v'"
    and "self_time_key self = None \<Longrightarrow> pt_time p = PInt (item_timestamp item)"
    and "self_time_key self = Some time_key \<Longrightarrow> map_of v' time_key = Some (pt_time p)"
proof -
  let ?v = "item_value item"
  let ?tks = "self_tags_keys self ?v"
  let ?fks = "self_fields_keys self ?v"
  from transform_Inr[OF assms] obtain tags0 flds ts where
    pr: "pop_tags (elements ?tks (item_value item)) ?v [] = (v', Inr tags0)"
    and sel: "(if truthy_iterable ?fks
              then select_fields v' ?tks (self_allow_missing_fields self) (elements ?fks v') []
              else Inr v') = Inr flds"
    and tm: "(case self_time_key self of
               Some time_key \<Rightarrow> dict_getitem v' time_key
             | None \<Rightarrow> Inr (PInt (item_timestamp item))) = Inr ts"
    and p: "p = \<lparr> pt_measurement = self_measurement self ?v,
                 pt_tags = (if self_include_metadata_tags self
                            then metadata_tags (item_key item) tp pn tags0 else tags0),
                 pt_fields = flds, pt_time = ts \<rparr>"
    by blast
  show "pt_measurement p = self_measurement self ?v" using p by simp
  have t0: "map_of tags0 k = (if k \<in> set (elements ?tks (item_value item)) then map_of ?v k else None)"
    using pop_tags_tags[OF pr, of k] by simp
  show "map_of (pt_tags p) k =
           (if self_include_metadata_tags self \<and> k = ''__partition'' then Some (PInt pn)
            else if self_include_metadata_tags self \<and> k = ''__topic'' then Some (PStr tp)
            else if self_include_metadata_tags self \<and> k = ''__key'' then Some (item_key item)
            else if k \<in> set (elements ?tks (item_value item)) then map_of ?v k else None)"
    using p t0 by (simp add: metadata_tags_def update_conv')
  show "map_of (pt_fields p) k =
             (if k \<in> set (elements ?fks v') \<and> \<not> contains_after_iteration ?tks k
              then map_of v' k else None)"
    if "truthy_iterable ?fks"
  proof -
    from that sel have "select_fields v' ?tks (self_allow_missing_fields self) (elements ?fks v') []
                          = Inr flds" by simp
    from select_fields_result[OF this, of k] p show ?thesis by auto
  qed
  show "pt_fields p = v'" if "\<not> truthy_iterable ?fks"
    using that sel p by simp
  show "pt_time p = PInt (item_timestamp item)" if "self_time_key self = None"
    using that tm p by simp
  show "map_of v' time_key = Some (pt_time p)" if "self_time_key self = Some time_key"
    using that tm p by (auto simp: dict_getitem_def split: option.splits)
qed

section \<open>Resolving the setters\<close>

text \<open>
  Claim C8. Resolving a static (non-callable) measurement, fields or tags setter yields a
  function that returns that constant for every input value; resolving a callable setter
  returns the callable itself; so the function resolved from a static setter takes the
  same value at any two inputs, however often it is resolved.
\<close>

theorem setter_resolution:
  "measurement_callable (Static m) value = m
   \<and> fields_callable (Static fks) value = Sequence fks
   \<and> tags_callable (Static tks) value = Sequence tks
   \<and> measurement_callable (Callable f) = f
   \<and> fields_callable (Callable g) = g
   \<and> tags_callable (Callable h) = h
   \<and> measurement_callable (Static m) value = measurement_callable (Static m) value'
   \<and> fields_callable (Static fks) value = fields_callable (Static fks) value'
   \<and> tags_callable (Static tks) value = tags_callable (Static tks) value'"
  by (simp add: measurement_callable_def fields_callable_def tags_callable_def)

theorem setter_resolution_witness:
  "measurement_callable (Static ''cpu'') [(''host'', PStr ''a'')] = ''cpu''
   \<and> fields_callable (Static [''temp'']) [(''host'', PStr ''a'')] = Sequence [''temp'']
   \<and> tags_callable (Static [''host'']) [(''host'', PStr ''a'')] = Sequence [''host'']
   \<and> tags_callable (Callable (\<lambda>value. Generator (map fst value))) [(''host'', PStr ''a'')]
       = Generator [''host'']"
  using setter_resolution [of "''cpu''" "[(''host'', PStr ''a'')]" "[''temp'']" "[''host'']"
                              "\<lambda>value. ''cpu''" "\<lambda>value. Sequence []"
                              "\<lambda>value. Generator (map fst value)" "[]"]
  by simp

section \<open>The emitted point\<close>

lemma plain_sink_simps:
  "self_measurement plain_sink v = ''cpu''"
  "self_fields_keys plain_sink v = Sequence []"
  "self_tags_keys plain_sink v = Sequence [''host'']"
  "self_include_metadata_tags plain_sink = False"
  "self_time_key plain_sink = None"
  "self_write_precision plain_sink = MS"
  "self_batch_size plain_sink = 1000"
  "self_allow_missing_fields plain_sink = False"
  by (simp_all add: plain_sink_def make_sink_def plain_args_def measurement_callable_def
                    fields_callable_def tags_callable_def)

lemma empty_iterator_sink_simps:
  "self_measurement empty_iterator_sink v = ''cpu''"
  "self_fields_keys empty_iterator_sink v = Generator []"
  "self_tags_keys empty_iterator_sink v = Sequence [''host'']"
  "self_include_metadata_tags empty_iterator_sink = False"
  "self_time_key empty_iterator_sink = None"
  "self_write_precision empty_iterator_sink = MS"
  "self_batch_size empty_iterator_sink = 1000"
  "self_allow_missing_fields empty_iterator_sink = False"
  by (simp_all add: empty_iterator_sink_def empty_iterator_args_def make_sink_def plain_args_def
                    measurement_callable_def fields_callable_def tags_callable_def)




lemma transform_dyn_sink:
  "transform dyn_sink ''t'' 2 ex_item =
     ([(''temp'', PInt 21)],
      Inr \<lparr> pt_measurement = ''hosts'',
            pt_tags = [(''host'', PStr ''a''), (''__key'', PStr ''k1''),
                       (''__topic'', PStr ''t''), (''__partition'', PInt 2)],
            pt_fields = [(''temp'', PInt 21)], pt_time = PInt 1700 \<rparr>)"
  by (simp add: transform_def dyn_sink_def ex_item_def ex_value_def metadata_tags_def
                dict_contains_def dict_getitem_def)

lemma transform_plain_sink:
  "transform plain_sink ''t'' 2 ex_item =
     ([(''temp'', PInt 21), (''__key'', PStr ''user'')],
      Inr \<lparr> pt_measurement = ''cpu'',
            pt_tags = [(''host'', PStr ''a'')],
            pt_fields = [(''temp'', PInt 21), (''__key'', PStr ''user'')],
            pt_time = PInt 1700 \<rparr>)"
  by (simp add: transform_def plain_sink_simps ex_item_def ex_value_def)

lemma transform_empty_iterator_sink:
  "transform empty_iterator_sink ''t'' 2 ex_item =
     ([(''temp'', PInt 21), (''__key'', PStr ''user'')],
      Inr \<lparr> pt_measurement = ''cpu'',
            pt_tags = [(''host'', PStr ''a'')],
            pt_fields = [],
            pt_time = PInt 1700 \<rparr>)"
  by (simp add: transform_def empty_iterator_sink_simps ex_item_def ex_value_def)




lemma completes_dyn_sink: "transform_completes dyn_sink ex_item"
  using transform_Inr_completes[OF transform_dyn_sink] .

lemma completes_plain_sink: "transform_completes plain_sink ex_item"
  using transform_Inr_completes[OF transform_plain_sink] .

text \<open>
  Claim C2. For every record whose transformation completes, no key of the resolved
  tag-key list is a key of the emitted point's fields, whether the fields were selected
  by a non-empty field-key list (static or computed from the record) or are the
  remaining value.
\<close>

theorem tag_keys_not_in_fields:
  assumes "transform self tp pn item = (v', Inr p)"
  shows "set (elements (self_tags_keys self (item_value item)) (item_value item)) \<inter> fst ` set (pt_fields p) = {}"
proof -
  let ?tks = "self_tags_keys self (item_value item)"
  let ?fks = "self_fields_keys self (item_value item)"
  from transform_Inr[OF assms] obtain tags0 flds ts where
    sel: "(if truthy_iterable ?fks
           then select_fields v' ?tks (self_allow_missing_fields self) (elements ?fks v') []
           else Inr v') = Inr flds"
    and p: "p = \<lparr> pt_measurement = self_measurement self (item_value item),
                 pt_tags = (if self_include_metadata_tags self
                            then metadata_tags (item_key item) tp pn tags0 else tags0),
                 pt_fields = flds, pt_time = ts \<rparr>"
    by blast
  have v': "v' = drop_keys (elements ?tks (item_value item)) (item_value item)" by (rule transform_value[OF assms])
  have "fst ` set flds \<subseteq> fst ` set v'"
  proof (cases "truthy_iterable ?fks")
    case False
    with sel show ?thesis by simp
  next
    case True
    with sel have "select_fields v' ?tks (self_allow_missing_fields self) (elements ?fks v') []
                     = Inr flds"
      by simp
    from select_fields_keys[OF this] show ?thesis by blast
  qed
  then have "fst ` set flds \<inter> set (elements ?tks (item_value item)) = {}"
    unfolding v' keys_drop_keys by blast
  with p show ?thesis by auto
qed

theorem tag_keys_not_in_fields_witness:
  "''host'' \<in> set (elements (self_fields_keys dyn_sink (item_value ex_item)) (drop_keys (elements (self_tags_keys dyn_sink (item_value ex_item)) (item_value ex_item)) (item_value ex_item)))
   \<and> ''host'' \<in> set (elements (self_tags_keys dyn_sink (item_value ex_item)) (item_value ex_item))
   \<and> transform dyn_sink ''t'' 2 ex_item =
       ([(''temp'', PInt 21)],
        Inr \<lparr> pt_measurement = ''hosts'',
              pt_tags = [(''host'', PStr ''a''), (''__key'', PStr ''k1''),
                         (''__topic'', PStr ''t''), (''__partition'', PInt 2)],
              pt_fields = [(''temp'', PInt 21)], pt_time = PInt 1700 \<rparr>)
   \<and> set (elements (self_tags_keys dyn_sink (item_value ex_item)) (item_value ex_item))
       \<inter> fst ` set (pt_fields \<lparr> pt_measurement = ''hosts'',
            pt_tags = [(''host'', PStr ''a''), (''__key'', PStr ''k1''),
                       (''__topic'', PStr ''t''), (''__partition'', PInt 2)],
            pt_fields = [(''temp'', PInt 21)], pt_time = PInt 1700 \<rparr>) = {}"
  using tag_keys_not_in_fields [OF transform_dyn_sink] transform_dyn_sink
  by (simp add: dyn_sink_def ex_item_def ex_value_def dict_contains_def)



lemma init_plain_args: "init plain_args = Inr plain_sink"
  by (simp add: init_def plain_args_def plain_sink_def time_args_def TIME_PRECISIONS_def
                static_keys_overlap_def fields_tags_keys_overlap_def)

lemma init_empty_iterator_args: "init empty_iterator_args = Inr empty_iterator_sink"
  by (simp add: init_def empty_iterator_args_def empty_iterator_sink_def plain_args_def
                time_args_def TIME_PRECISIONS_def static_keys_overlap_def)

lemma init_overlap_args: "init overlap_args = Inr overlap_sink"
  by (simp add: init_def overlap_args_def overlap_sink_def time_args_def TIME_PRECISIONS_def
                static_keys_overlap_def)


lemma falsy_elements: "\<not> truthy_iterable xs \<Longrightarrow> xs = Sequence []"
  by (cases xs) auto

text \<open>
  With field keys that are false (an empty list or tuple, as the default \<^verbatim>\<open>()\<close>) the
  point is emitted whenever the tags and the time can be read, and its fields are the
  record value without the resolved tag keys.
\<close>

lemma falsy_field_keys_whole_value:
  assumes "self_fields_keys self (item_value item) = Sequence []"
      and "transform_completes self item"
  shows "\<exists>p. transform self tp pn item
               = (drop_keys (elements (self_tags_keys self (item_value item)) (item_value item)) (item_value item),
                  Inr p)
             \<and> pt_fields p
                 = drop_keys (elements (self_tags_keys self (item_value item)) (item_value item)) (item_value item)"
proof -
  from transform_completes_imp[OF assms(2), of tp pn] obtain p where
    t: "transform self tp pn item
          = (drop_keys (elements (self_tags_keys self (item_value item)) (item_value item)) (item_value item),
             Inr p)"
    by blast
  from transform_point(4)[OF t] assms(1)
  have "pt_fields p
          = drop_keys (elements (self_tags_keys self (item_value item)) (item_value item)) (item_value item)"
    by simp
  with t show ?thesis by blast
qed

text \<open>
  Claim C4 fails on the code for field keys computed by a callable that returns an empty
  one-shot iterator (\<^verbatim>\<open>lambda value: iter(())\<close>): the resolved field keys are empty, but
  the test \<^verbatim>\<open>if _fields_keys\<close> asks whether the iterator object is true, which it always
  is, so the comprehension runs over no key and the point is emitted with no field at
  all, where the remaining value has the keys \<^verbatim>\<open>temp\<close> and \<^verbatim>\<open>__key\<close>. The constructor's
  docstring says of the field keys: if empty, the whole record value will be used.
\<close>

theorem empty_iterator_field_keys:
  "init empty_iterator_args = Inr empty_iterator_sink
   \<and> elements (self_fields_keys empty_iterator_sink (item_value ex_item)) (drop_keys (elements (self_tags_keys empty_iterator_sink (item_value ex_item)) (item_value ex_item)) (item_value ex_item)) = []
   \<and> drop_keys (elements (self_tags_keys empty_iterator_sink (item_value ex_item)) (item_value ex_item))
                (item_value ex_item)
       = [(''temp'', PInt 21), (''__key'', PStr ''user'')]
   \<and> transform empty_iterator_sink ''t'' 2 ex_item =
       ([(''temp'', PInt 21), (''__key'', PStr ''user'')],
        Inr \<lparr> pt_measurement = ''cpu'', pt_tags = [(''host'', PStr ''a'')],
              pt_fields = [], pt_time = PInt 1700 \<rparr>)
   \<and> transform plain_sink ''t'' 2 ex_item =
       ([(''temp'', PInt 21), (''__key'', PStr ''user'')],
        Inr \<lparr> pt_measurement = ''cpu'', pt_tags = [(''host'', PStr ''a'')],
              pt_fields = [(''temp'', PInt 21), (''__key'', PStr ''user'')],
              pt_time = PInt 1700 \<rparr>)"
  by (simp add: init_empty_iterator_args empty_iterator_sink_simps transform_empty_iterator_sink
                transform_plain_sink)
     (simp add: ex_item_def ex_value_def drop_keys_def)

text \<open>
  Claim C10. With \<^verbatim>\<open>include_metadata_tags=True\<close> the reserved tags \<^verbatim>\<open>__key\<close>,
  \<^verbatim>\<open>__topic\<close> and \<^verbatim>\<open>__partition\<close> are assigned after the user's tags were extracted.
  A record whose tags, fields and time can be read is transformed to a point, and no
  other record is; in that point the three reserved tags hold the record key, the batch
  topic and the batch partition, also when the resolved tag keys contain one of these
  names and a user value had been extracted under it, and every other tag is the user's.
\<close>

theorem metadata_tags_overwrite:
  assumes "self_include_metadata_tags self"
  shows "(transform_completes self item \<longrightarrow>
            (\<exists>p. transform self tp pn item
                    = (drop_keys (elements (self_tags_keys self (item_value item)) (item_value item))
                                 (item_value item), Inr p)
                \<and> map_of (pt_tags p) ''__key'' = Some (item_key item)
                \<and> map_of (pt_tags p) ''__topic'' = Some (PStr tp)
                \<and> map_of (pt_tags p) ''__partition'' = Some (PInt pn)
                \<and> (\<forall>k. k \<notin> {''__key'', ''__topic'', ''__partition''} \<longrightarrow>
                       map_of (pt_tags p) k
                         = (if k \<in> set (elements (self_tags_keys self (item_value item)) (item_value item))
                            then map_of (item_value item) k else None))))
       \<and> (\<forall>v' p. transform self tp pn item = (v', Inr p) \<longrightarrow> transform_completes self item)"
proof -
  have a: "\<exists>p. transform self tp pn item
                    = (drop_keys (elements (self_tags_keys self (item_value item)) (item_value item))
                                 (item_value item), Inr p)
                \<and> map_of (pt_tags p) ''__key'' = Some (item_key item)
                \<and> map_of (pt_tags p) ''__topic'' = Some (PStr tp)
                \<and> map_of (pt_tags p) ''__partition'' = Some (PInt pn)
                \<and> (\<forall>k. k \<notin> {''__key'', ''__topic'', ''__partition''} \<longrightarrow>
                       map_of (pt_tags p) k
                         = (if k \<in> set (elements (self_tags_keys self (item_value item)) (item_value item))
                            then map_of (item_value item) k else None))"
    if c: "transform_completes self item"
  proof -
    from transform_completes_imp[OF c, of tp pn] obtain p where
      t: "transform self tp pn item
            = (drop_keys (elements (self_tags_keys self (item_value item)) (item_value item)) (item_value item),
               Inr p)"
      by blast
    note tg = transform_point(2)[OF t]
    have k1: "map_of (pt_tags p) ''__key'' = Some (item_key item)"
      using tg[of "''__key''"] assms by simp
    have k2: "map_of (pt_tags p) ''__topic'' = Some (PStr tp)"
      using tg[of "''__topic''"] assms by simp
    have k3: "map_of (pt_tags p) ''__partition'' = Some (PInt pn)"
      using tg[of "''__partition''"] assms by simp
    have k4: "map_of (pt_tags p) k
                = (if k \<in> set (elements (self_tags_keys self (item_value item)) (item_value item))
                   then map_of (item_value item) k else None)"
      if "k \<notin> {''__key'', ''__topic'', ''__partition''}" for k
      using tg[of k] that by simp
    from t k1 k2 k3 k4 show ?thesis by blast
  qed
  have b: "transform_completes self item" if "transform self tp pn item = (v', Inr p)" for v' p
    using transform_Inr_completes[OF that] .
  show ?thesis
  proof (intro conjI impI allI)
    assume "transform_completes self item"
    then show "\<exists>p. transform self tp pn item
                    = (drop_keys (elements (self_tags_keys self (item_value item)) (item_value item))
                                 (item_value item), Inr p)
                \<and> map_of (pt_tags p) ''__key'' = Some (item_key item)
                \<and> map_of (pt_tags p) ''__topic'' = Some (PStr tp)
                \<and> map_of (pt_tags p) ''__partition'' = Some (PInt pn)
                \<and> (\<forall>k. k \<notin> {''__key'', ''__topic'', ''__partition''} \<longrightarrow>
                       map_of (pt_tags p) k
                         = (if k \<in> set (elements (self_tags_keys self (item_value item)) (item_value item))
                            then map_of (item_value item) k else None))"
      by (rule a)
  next
    fix v' p assume "transform self tp pn item = (v', Inr p)"
    then show "transform_completes self item" by (rule b)
  qed
qed

theorem metadata_tags_overwrite_witness:
  "self_include_metadata_tags dyn_sink
   \<and> transform_completes dyn_sink ex_item
   \<and> ''__key'' \<in> set (elements (self_tags_keys dyn_sink (item_value ex_item)) (item_value ex_item))
   \<and> map_of (item_value ex_item) ''__key'' = Some (PStr ''user'')
   \<and> item_key ex_item = PStr ''k1''
   \<and> transform dyn_sink ''t'' 2 ex_item =
       ([(''temp'', PInt 21)],
        Inr \<lparr> pt_measurement = ''hosts'',
              pt_tags = [(''host'', PStr ''a''), (''__key'', PStr ''k1''),
                         (''__topic'', PStr ''t''), (''__partition'', PInt 2)],
              pt_fields = [(''temp'', PInt 21)], pt_time = PInt 1700 \<rparr>)
   \<and> map_of (pt_tags \<lparr> pt_measurement = ''hosts'',
              pt_tags = [(''host'', PStr ''a''), (''__key'', PStr ''k1''),
                         (''__topic'', PStr ''t''), (''__partition'', PInt 2)],
              pt_fields = [(''temp'', PInt 21)], pt_time = PInt 1700 \<rparr>) ''__key''
       = Some (PStr ''k1'')
   \<and> map_of (pt_tags \<lparr> pt_measurement = ''hosts'',
              pt_tags = [(''host'', PStr ''a''), (''__key'', PStr ''k1''),
                         (''__topic'', PStr ''t''), (''__partition'', PInt 2)],
              pt_fields = [(''temp'', PInt 21)], pt_time = PInt 1700 \<rparr>) ''host''
       = Some (PStr ''a'')"
proof -
  have m: "self_include_metadata_tags dyn_sink" by (simp add: dyn_sink_def)
  have h: "''host'' \<notin> {''__key'', ''__topic'', ''__partition''}" by simp
  from metadata_tags_overwrite [OF m, of ex_item "''t''" 2]
  have "transform_completes dyn_sink ex_item \<longrightarrow>
          (\<exists>p. transform dyn_sink ''t'' 2 ex_item
                  = (drop_keys (elements (self_tags_keys dyn_sink (item_value ex_item)) (item_value ex_item))
                               (item_value ex_item), Inr p)
              \<and> map_of (pt_tags p) ''__key'' = Some (item_key ex_item)
              \<and> map_of (pt_tags p) ''__topic'' = Some (PStr ''t'')
              \<and> map_of (pt_tags p) ''__partition'' = Some (PInt 2)
              \<and> (\<forall>k. k \<notin> {''__key'', ''__topic'', ''__partition''} \<longrightarrow>
                     map_of (pt_tags p) k
                       = (if k \<in> set (elements (self_tags_keys dyn_sink (item_value ex_item)) (item_value ex_item))
                          then map_of (item_value ex_item) k else None)))"
    by (rule conjunct1)
  from mp[OF this completes_dyn_sink]
  obtain p where
    t: "transform dyn_sink ''t'' 2 ex_item
          = (drop_keys (elements (self_tags_keys dyn_sink (item_value ex_item)) (item_value ex_item))
                       (item_value ex_item), Inr p)"
    and k1: "map_of (pt_tags p) ''__key'' = Some (item_key ex_item)"
    and k2: "map_of (pt_tags p) ''__topic'' = Some (PStr ''t'')"
    and k3: "map_of (pt_tags p) ''__partition'' = Some (PInt 2)"
    and k4: "\<forall>k. k \<notin> {''__key'', ''__topic'', ''__partition''} \<longrightarrow>
                 map_of (pt_tags p) k
                   = (if k \<in> set (elements (self_tags_keys dyn_sink (item_value ex_item)) (item_value ex_item))
                      then map_of (item_value ex_item) k else None)"
    by (elim exE conjE)
  from k4[rule_format, OF h] have k5: "map_of (pt_tags p) ''host''
                   = (if ''host'' \<in> set (elements (self_tags_keys dyn_sink (item_value ex_item)) (item_value ex_item))
                      then map_of (item_value ex_item) ''host'' else None)" .
  have v: "drop_keys (elements (self_tags_keys dyn_sink (item_value ex_item)) (item_value ex_item))
                     (item_value ex_item) = [(''temp'', PInt 21)]"
    by (simp add: dyn_sink_def ex_item_def ex_value_def drop_keys_def)
  have e: "''__key'' \<in> set (elements (self_tags_keys dyn_sink (item_value ex_item)) (item_value ex_item))
           \<and> map_of (item_value ex_item) ''__key'' = Some (PStr ''user'')
           \<and> item_key ex_item = PStr ''k1''
           \<and> ''host'' \<in> set (elements (self_tags_keys dyn_sink (item_value ex_item)) (item_value ex_item))
           \<and> map_of (item_value ex_item) ''host'' = Some (PStr ''a'')"
    by (simp add: dyn_sink_def ex_item_def ex_value_def)
  from t v have t': "transform dyn_sink ''t'' 2 ex_item = ([(''temp'', PInt 21)], Inr p)"
    by simp
  with transform_dyn_sink have p: "p = \<lparr> pt_measurement = ''hosts'',
              pt_tags = [(''host'', PStr ''a''), (''__key'', PStr ''k1''),
                         (''__topic'', PStr ''t''), (''__partition'', PInt 2)],
              pt_fields = [(''temp'', PInt 21)], pt_time = PInt 1700 \<rparr>"
    by simp
  from k1 e have k1': "map_of (pt_tags p) ''__key'' = Some (PStr ''k1'')" by simp
  from k5 e have k5': "map_of (pt_tags p) ''host'' = Some (PStr ''a'')" by simp
  from m completes_dyn_sink e t' k1' k5' show ?thesis unfolding p by simp
qed

text \<open>
  The transformation in terms of the three results on the original value. A record whose
  tags, fields and time can be read is transformed to a point, and no other record is;
  that point carries the measurement computed from the original value, its tags are the
  keys that the tag-key result yields on the original value, the keys removed from the
  value are these, and its fields are selected by the keys that the field-key result
  yields on the value without them. The transformation is the one obtained from the
  three results on the original value.
\<close>

lemma transform_characterisation:
  "(transform_completes self item \<longrightarrow>
      (\<exists>p. transform self tp pn item
              = (drop_keys (elements (self_tags_keys self (item_value item)) (item_value item)) (item_value item),
                 Inr p)
          \<and> pt_measurement p = self_measurement self (item_value item)
          \<and> (\<forall>k. k \<notin> {''__key'', ''__topic'', ''__partition''}
                   \<or> \<not> self_include_metadata_tags self \<longrightarrow>
                 map_of (pt_tags p) k
                   = (if k \<in> set (elements (self_tags_keys self (item_value item)) (item_value item))
                      then map_of (item_value item) k else None))
          \<and> (truthy_iterable (self_fields_keys self (item_value item)) \<longrightarrow>
                (\<forall>k. map_of (pt_fields p) k
                   = (if k \<in> set (elements (self_fields_keys self (item_value item)) (drop_keys (elements (self_tags_keys self (item_value item)) (item_value item)) (item_value item)))
                         \<and> \<not> contains_after_iteration
                               (self_tags_keys self (item_value item)) k
                      then map_of (drop_keys (elements (self_tags_keys self (item_value item)) (item_value item))
                                             (item_value item)) k
                      else None)))
          \<and> (\<not> truthy_iterable (self_fields_keys self (item_value item)) \<longrightarrow>
                pt_fields p = drop_keys (elements (self_tags_keys self (item_value item)) (item_value item))
                                        (item_value item))))
   \<and> (\<forall>v' p. transform self tp pn item = (v', Inr p) \<longrightarrow> transform_completes self item)
   \<and> transform self tp pn item =
       transform (self\<lparr> self_measurement := (\<lambda>value. self_measurement self (item_value item)),
                        self_tags_keys := (\<lambda>value. self_tags_keys self (item_value item)),
                        self_fields_keys := (\<lambda>value. self_fields_keys self (item_value item)) \<rparr>)
                 tp pn item"
proof (intro conjI impI allI)
  let ?v' = "drop_keys (elements (self_tags_keys self (item_value item)) (item_value item)) (item_value item)"
  assume c: "transform_completes self item"
  from transform_completes_imp[OF c, of tp pn] obtain p where
    t: "transform self tp pn item = (?v', Inr p)"
    by blast
  have m: "pt_measurement p = self_measurement self (item_value item)"
    by (rule transform_point(1)[OF t])
  have tg: "map_of (pt_tags p) k
              = (if k \<in> set (elements (self_tags_keys self (item_value item)) (item_value item))
                 then map_of (item_value item) k else None)"
    if "k \<notin> {''__key'', ''__topic'', ''__partition''} \<or> \<not> self_include_metadata_tags self"
    for k
    using transform_point(2)[OF t, of k] that by auto
  have fl: "map_of (pt_fields p) k
              = (if k \<in> set (elements (self_fields_keys self (item_value item)) (drop_keys (elements (self_tags_keys self (item_value item)) (item_value item)) (item_value item)))
                    \<and> \<not> contains_after_iteration (self_tags_keys self (item_value item)) k
                 then map_of ?v' k else None)"
    if "truthy_iterable (self_fields_keys self (item_value item))" for k
    by (rule transform_point(3)[OF t that])
  have wh: "pt_fields p = ?v'" if "\<not> truthy_iterable (self_fields_keys self (item_value item))"
    by (rule transform_point(4)[OF t that])
  show "\<exists>p. transform self tp pn item = (?v', Inr p)
          \<and> pt_measurement p = self_measurement self (item_value item)
          \<and> (\<forall>k. k \<notin> {''__key'', ''__topic'', ''__partition''}
                   \<or> \<not> self_include_metadata_tags self \<longrightarrow>
                 map_of (pt_tags p) k
                   = (if k \<in> set (elements (self_tags_keys self (item_value item)) (item_value item))
                      then map_of (item_value item) k else None))
          \<and> (truthy_iterable (self_fields_keys self (item_value item)) \<longrightarrow>
                (\<forall>k. map_of (pt_fields p) k
                   = (if k \<in> set (elements (self_fields_keys self (item_value item)) (drop_keys (elements (self_tags_keys self (item_value item)) (item_value item)) (item_value item)))
                         \<and> \<not> contains_after_iteration
                               (self_tags_keys self (item_value item)) k
                      then map_of ?v' k
                      else None)))
          \<and> (\<not> truthy_iterable (self_fields_keys self (item_value item)) \<longrightarrow>
                pt_fields p = ?v')"
  proof (intro exI conjI allI impI)
    show "transform self tp pn item = (?v', Inr p)" by (rule t)
    show "pt_measurement p = self_measurement self (item_value item)" by (rule m)
    show "map_of (pt_tags p) k
              = (if k \<in> set (elements (self_tags_keys self (item_value item)) (item_value item))
                 then map_of (item_value item) k else None)"
      if "k \<notin> {''__key'', ''__topic'', ''__partition''} \<or> \<not> self_include_metadata_tags self"
      for k by (rule tg[OF that])
    show "map_of (pt_fields p) k
              = (if k \<in> set (elements (self_fields_keys self (item_value item)) (drop_keys (elements (self_tags_keys self (item_value item)) (item_value item)) (item_value item)))
                    \<and> \<not> contains_after_iteration (self_tags_keys self (item_value item)) k
                 then map_of ?v' k else None)"
      if "truthy_iterable (self_fields_keys self (item_value item))" for k
      by (rule fl[OF that])
    show "pt_fields p = ?v'" if "\<not> truthy_iterable (self_fields_keys self (item_value item))"
      by (rule wh[OF that])
  qed
next
  fix v' p assume "transform self tp pn item = (v', Inr p)"
  then show "transform_completes self item" by (rule transform_Inr_completes)
next
  show "transform self tp pn item =
     transform (self\<lparr> self_measurement := (\<lambda>value. self_measurement self (item_value item)),
                      self_tags_keys := (\<lambda>value. self_tags_keys self (item_value item)),
                      self_fields_keys := (\<lambda>value. self_fields_keys self (item_value item)) \<rparr>)
               tp pn item"
    by (simp add: transform_def Let_def cong: prod.case_cong sum.case_cong option.case_cong if_cong)
qed

lemma elements_fixed: "(\<forall>g. xs \<noteq> Lazy g) \<Longrightarrow> elements xs d = elements xs d'"
  by (cases xs) auto

lemma lazy_fields_sink_simps:
  "self_measurement lazy_fields_sink v = ''cpu''"
  "self_fields_keys lazy_fields_sink v
     = Lazy (\<lambda>d. if dict_contains d ''host'' then [''temp''] else [''none''])"
  "self_tags_keys lazy_fields_sink v = Sequence [''host'']"
  "self_include_metadata_tags lazy_fields_sink = False"
  "self_time_key lazy_fields_sink = None"
  "self_write_precision lazy_fields_sink = MS"
  "self_batch_size lazy_fields_sink = 1000"
  "self_allow_missing_fields lazy_fields_sink = False"
  by (simp_all add: lazy_fields_sink_def lazy_fields_args_def make_sink_def plain_args_def
                    measurement_callable_def fields_callable_def tags_callable_def)

lemma eager_fields_sink_simps:
  "self_measurement eager_fields_sink v = ''cpu''"
  "self_fields_keys eager_fields_sink v
     = Sequence (if dict_contains v ''host'' then [''temp''] else [''none''])"
  "self_tags_keys eager_fields_sink v = Sequence [''host'']"
  "self_include_metadata_tags eager_fields_sink = False"
  "self_time_key eager_fields_sink = None"
  "self_write_precision eager_fields_sink = MS"
  "self_batch_size eager_fields_sink = 1000"
  "self_allow_missing_fields eager_fields_sink = False"
  by (simp_all add: eager_fields_sink_def eager_fields_args_def make_sink_def plain_args_def
                    measurement_callable_def fields_callable_def tags_callable_def)

lemma init_lazy_fields_args: "init lazy_fields_args = Inr lazy_fields_sink"
  by (simp add: init_def lazy_fields_args_def lazy_fields_sink_def plain_args_def
                time_args_def TIME_PRECISIONS_def static_keys_overlap_def)

lemma transform_lazy_fields_sink:
  "transform lazy_fields_sink ''t'' 2 ex_item =
     ([(''temp'', PInt 21), (''__key'', PStr ''user'')], Inl (KeyError ''none''))"
  by (simp add: lazy_fields_sink_simps transform_def ex_item_def ex_value_def
                dict_contains_def dict_getitem_def)

lemma transform_eager_fields_sink:
  "transform eager_fields_sink ''t'' 2 ex_item =
     ([(''temp'', PInt 21), (''__key'', PStr ''user'')],
      Inr \<lparr> pt_measurement = ''cpu'', pt_tags = [(''host'', PStr ''a'')],
            pt_fields = [(''temp'', PInt 21)], pt_time = PInt 1700 \<rparr>)"
  by (simp add: eager_fields_sink_simps transform_def ex_item_def ex_value_def
                dict_contains_def dict_getitem_def)

text \<open>
  Claim C7 fails on the code for field keys computed by a generator function. The three
  functions are called on the record's value as it arrives, under the comment that they
  are evaluated before the value is altered, but the iterable that the call returns is
  used as it is: the body of a generator runs when the comprehension iterates it, after
  the tag loop has removed the tag keys. On the record as it arrived the function below
  finds the host and gives the key \<^verbatim>\<open>temp\<close>; in the write it no longer finds the host,
  gives the key \<^verbatim>\<open>none\<close>, and the transformation of a record that has all its keys
  fails with a key error. The same keys returned as a list give the point with the
  field \<^verbatim>\<open>temp\<close>.
\<close>

theorem lazy_field_keys_see_altered_value:
  "init lazy_fields_args = Inr lazy_fields_sink
   \<and> elements (self_fields_keys lazy_fields_sink (item_value ex_item)) (item_value ex_item)
       = [''temp'']
   \<and> drop_keys (elements (self_tags_keys lazy_fields_sink (item_value ex_item))
                          (item_value ex_item)) (item_value ex_item)
       = [(''temp'', PInt 21), (''__key'', PStr ''user'')]
   \<and> elements (self_fields_keys lazy_fields_sink (item_value ex_item))
                [(''temp'', PInt 21), (''__key'', PStr ''user'')]
       = [''none'']
   \<and> transform lazy_fields_sink ''t'' 2 ex_item =
       ([(''temp'', PInt 21), (''__key'', PStr ''user'')], Inl (KeyError ''none''))
   \<and> transform eager_fields_sink ''t'' 2 ex_item =
       ([(''temp'', PInt 21), (''__key'', PStr ''user'')],
        Inr \<lparr> pt_measurement = ''cpu'', pt_tags = [(''host'', PStr ''a'')],
              pt_fields = [(''temp'', PInt 21)], pt_time = PInt 1700 \<rparr>)"
  by (simp add: init_lazy_fields_args transform_lazy_fields_sink transform_eager_fields_sink)
     (simp add: lazy_fields_sink_simps ex_item_def ex_value_def drop_keys_def dict_contains_def)

section \<open>The policy for missing field keys\<close>




section \<open>Construction\<close>

lemma overlap_empty_iff: "fields_tags_keys_overlap fks tks = [] \<longleftrightarrow> set fks \<inter> set tks = {}"
  by (auto simp: fields_tags_keys_overlap_def filter_empty_conv)

lemma time_precision_lookup:
  "tp \<in> set time_args \<Longrightarrow> \<exists>wp. map_of TIME_PRECISIONS tp = Some wp"
  by (auto simp: time_args_def TIME_PRECISIONS_def)

text \<open>
  Claim C6. For arguments whose \<^verbatim>\<open>time_precision\<close> is of its declared type (one of
  \<^verbatim>\<open>"ms"\<close>, \<^verbatim>\<open>"ns"\<close>, \<^verbatim>\<open>"us"\<close>, \<^verbatim>\<open>"s"\<close>; the constructor rejects anything else
  beforehand): constructing the sink succeeds whenever the static field keys and tag keys
  are disjoint, and raises the overlap \<^verbatim>\<open>ValueError\<close>, before any record is seen, whenever
  both setters are static and share a key. The test is made at construction only: it is
  skipped when a setter is callable, and the transformation of a record never raises it.
\<close>

theorem init_overlap_check:
  assumes "arg_time_precision a \<in> set time_args"
  shows "(\<forall>fks tks. arg_fields_keys a = Static fks \<and> arg_tags_keys a = Static tks
                    \<and> set fks \<inter> set tks = {}
            \<longrightarrow> (\<exists>wp. init a = Inr (make_sink a wp)))
       \<and> (\<forall>fks tks. arg_fields_keys a = Static fks \<and> arg_tags_keys a = Static tks
                    \<and> set fks \<inter> set tks \<noteq> {}
            \<longrightarrow> init a = Inl (ValueError OverlappingKeys))
       \<and> (callable (arg_fields_keys a) \<or> callable (arg_tags_keys a)
            \<longrightarrow> (\<exists>wp. init a = Inr (make_sink a wp)))
       \<and> (\<forall>self tp pn item v' e. transform self tp pn item = (v', Inl e)
            \<longrightarrow> e \<noteq> ValueError OverlappingKeys)"
proof -
  from time_precision_lookup[OF assms] obtain wp where
    wp: "map_of TIME_PRECISIONS (arg_time_precision a) = Some wp" by blast
  have disj: "\<exists>wp. init a = Inr (make_sink a wp)"
    if "arg_fields_keys a = Static fks" "arg_tags_keys a = Static tks" "set fks \<inter> set tks = {}"
    for fks tks
    using that assms wp by (auto simp: init_def static_keys_overlap_def overlap_empty_iff)
  have clash: "init a = Inl (ValueError OverlappingKeys)"
    if "arg_fields_keys a = Static fks" "arg_tags_keys a = Static tks" "set fks \<inter> set tks \<noteq> {}"
    for fks tks
    using that assms by (simp add: init_def static_keys_overlap_def overlap_empty_iff)
  have dyn: "\<exists>wp. init a = Inr (make_sink a wp)"
    if "callable (arg_fields_keys a) \<or> callable (arg_tags_keys a)"
    using that assms wp by (auto simp: init_def)
  have per_record: "e \<noteq> ValueError OverlappingKeys"
    if "transform self tp pn item = (v', Inl e)" for self tp pn item v' e
    using transform_error[OF that] by auto
  show ?thesis using disj clash dyn per_record by blast
qed

theorem init_overlap_check_witness:
  "arg_time_precision plain_args \<in> set time_args
   \<and> init plain_args = Inr (make_sink plain_args MS)
   \<and> arg_time_precision clash_args \<in> set time_args
   \<and> init clash_args = Inl (ValueError OverlappingKeys)
   \<and> arg_time_precision overlap_args \<in> set time_args
   \<and> init overlap_args = Inr (make_sink overlap_args MS)"
proof -
  have h1: "arg_time_precision plain_args \<in> set time_args"
    by (simp add: plain_args_def time_args_def)
  have h2: "arg_time_precision clash_args \<in> set time_args"
    by (simp add: clash_args_def overlap_args_def time_args_def)
  have h3: "arg_time_precision overlap_args \<in> set time_args"
    by (simp add: overlap_args_def time_args_def)
  from init_overlap_check [OF h1]
  have a: "\<exists>wp. init plain_args = Inr (make_sink plain_args wp)"
    by (simp add: plain_args_def)
  from init_overlap_check [OF h2]
  have b: "init clash_args = Inl (ValueError OverlappingKeys)"
    by (simp add: clash_args_def overlap_args_def)
  from init_overlap_check [OF h3]
  have c: "\<exists>wp. init overlap_args = Inr (make_sink overlap_args wp)"
    by (simp add: overlap_args_def)
  from a b c h1 h2 h3 show ?thesis
    by (simp add: init_plain_args plain_sink_def init_overlap_args overlap_sink_def)
qed

section \<open>Properties of the chunking\<close>

lemma chunks_of_Nil: "chunks_of n [] = []"
  by (simp add: chunks_of.simps)

lemma chunks_of_zero: "chunks_of 0 xs = []"
  by (simp add: chunks_of.simps)

lemma chunks_of_step:
  "0 < n \<Longrightarrow> xs \<noteq> [] \<Longrightarrow> chunks_of n xs = take n xs # chunks_of n (drop n xs)"
  by (subst chunks_of.simps) simp

lemma concat_chunks_of: "0 < n \<Longrightarrow> concat (chunks_of n xs) = xs"
proof (induction n xs rule: chunks_of.induct)
  case (1 n xs)
  show ?case
  proof (cases "xs = []")
    case True
    then show ?thesis by (simp add: chunks_of_Nil)
  next
    case False
    with 1 show ?thesis by (simp add: chunks_of_step)
  qed
qed

lemma chunks_of_nonempty: "c \<in> set (chunks_of n xs) \<Longrightarrow> c \<noteq> [] \<and> length c \<le> n"
proof (induction n xs arbitrary: c rule: chunks_of.induct)
  case (1 n xs)
  show ?case
  proof (cases "n = 0 \<or> xs = []")
    case True
    with 1(2) show ?thesis by (auto simp: chunks_of.simps[of n xs])
  next
    case False
    then have st: "chunks_of n xs = take n xs # chunks_of n (drop n xs)"
      by (simp add: chunks_of_step)
    with 1(2) have "c = take n xs \<or> c \<in> set (chunks_of n (drop n xs))" by simp
    then show ?thesis
    proof
      assume "c = take n xs"
      with False show ?thesis by simp
    next
      assume "c \<in> set (chunks_of n (drop n xs))"
      with 1(1)[OF False] show ?thesis by blast
    qed
  qed
qed

lemma chunks_of_full: "c \<in> set (butlast (chunks_of n xs)) \<Longrightarrow> length c = n"
proof (induction n xs arbitrary: c rule: chunks_of.induct)
  case (1 n xs)
  show ?case
  proof (cases "n = 0 \<or> xs = []")
    case True
    with 1(2) show ?thesis by (auto simp: chunks_of.simps[of n xs])
  next
    case False
    then have st: "chunks_of n xs = take n xs # chunks_of n (drop n xs)"
      by (simp add: chunks_of_step)
    show ?thesis
    proof (cases "chunks_of n (drop n xs) = []")
      case True
      with st 1(2) show ?thesis by simp
    next
      case rest: False
      then have "drop n xs \<noteq> []" by (auto simp: chunks_of_Nil)
      then have full: "length (take n xs) = n" by simp
      from st rest 1(2) have "c = take n xs \<or> c \<in> set (butlast (chunks_of n (drop n xs)))"
        by simp
      then show ?thesis
      proof
        assume "c = take n xs"
        with full show ?thesis by simp
      next
        assume "c \<in> set (butlast (chunks_of n (drop n xs)))"
        with 1(1)[OF False] show ?thesis by blast
      qed
    qed
  qed
qed

lemma chunks_of_2500:
  assumes "length xs = 2500"
  shows "map length (chunks_of 1000 xs) = [1000, 1000, 500]"
proof -
  have x0: "xs \<noteq> []" using assms by auto
  have x1: "drop 1000 xs \<noteq> []" using assms by auto
  have x2: "drop 1000 (drop 1000 xs) \<noteq> []" using assms by auto
  have x3: "drop 1000 (drop 1000 (drop 1000 xs)) = []" using assms by auto
  have "chunks_of 1000 xs =
          [take 1000 xs, take 1000 (drop 1000 xs), take 1000 (drop 1000 (drop 1000 xs))]"
    using chunks_of_step[of 1000 xs] chunks_of_step[of 1000 "drop 1000 xs"]
          chunks_of_step[of 1000 "drop 1000 (drop 1000 xs)"] x0 x1 x2 x3
    by (simp add: chunks_of_Nil)
  then show ?thesis using assms by simp
qed

lemma iter_chunks_pos: "0 < n \<Longrightarrow> iter_chunks n xs = Inr (chunks_of n xs)"
  by (simp add: iter_chunks_def chunks_of_Nil)

lemma iter_chunks_empty: "iter_chunks n [] = Inr []"
  by (simp add: iter_chunks_def)

lemma iter_chunks_Inr:
  "iter_chunks n xs = Inr cs \<Longrightarrow> cs = chunks_of n xs \<and> concat cs = xs"
  by (cases "xs = []") (auto simp: iter_chunks_def chunks_of_Nil concat_chunks_of split: if_splits)

lemma iter_chunks_Inl:
  "iter_chunks n xs = Inl e \<Longrightarrow> n = 0 \<and> xs \<noteq> [] \<and> e = ValueError ChunkSizeBelowOne"
  by (auto simp: iter_chunks_def split: if_splits)


section \<open>Properties of the loop over a chunk\<close>

lemma py_min_num:
  "py_num a \<noteq> None \<Longrightarrow> py_num b \<noteq> None \<Longrightarrow> \<exists>m. py_min a b = Inr m \<and> py_num m \<noteq> None"
  by (auto simp: py_min_def py_lt_def)

lemma py_max_num:
  "py_num a \<noteq> None \<Longrightarrow> py_num b \<noteq> None \<Longrightarrow> \<exists>m. py_max a b = Inr m \<and> py_num m \<noteq> None"
  by (auto simp: py_max_def py_lt_def)

lemma py_min_error: "py_min a b = Inl e \<Longrightarrow> e = TypeError"
  by (auto simp: py_min_def py_lt_def split: sum.splits option.splits pyval.splits)

lemma py_max_error: "py_max a b = Inl e \<Longrightarrow> e = TypeError"
  by (auto simp: py_max_def py_lt_def split: sum.splits option.splits pyval.splits)

lemma process_items_fail_transform:
  "transform self tp pn item = (v', Inl e) \<Longrightarrow>
     process_items self tp pn (item # rest) (recs, mn, mx) = (item\<lparr>item_value := v'\<rparr> # rest, Inl e)"
  by simp

lemma process_items_fail_min:
  "transform self tp pn item = (v', Inr p) \<Longrightarrow> py_min (pt_time p) mn = Inl e \<Longrightarrow>
     process_items self tp pn (item # rest) (recs, mn, mx) = (item\<lparr>item_value := v'\<rparr> # rest, Inl e)"
  by simp

lemma process_items_fail_max:
  "transform self tp pn item = (v', Inr p) \<Longrightarrow> py_min (pt_time p) mn = Inr mn' \<Longrightarrow>
   py_max (pt_time p) mx = Inl e \<Longrightarrow>
     process_items self tp pn (item # rest) (recs, mn, mx) = (item\<lparr>item_value := v'\<rparr> # rest, Inl e)"
  by simp

lemma process_items_step:
  "transform self tp pn item = (v', Inr p) \<Longrightarrow> py_min (pt_time p) mn = Inr mn' \<Longrightarrow>
   py_max (pt_time p) mx = Inr mx' \<Longrightarrow>
     process_items self tp pn (item # rest) (recs, mn, mx) =
       (item\<lparr>item_value := v'\<rparr> # fst (process_items self tp pn rest (recs @ [p], mn', mx')),
        snd (process_items self tp pn rest (recs @ [p], mn', mx')))"
  by (simp split: prod.splits)

lemma process_items_cases:
  obtains (transform_fail) v' e where "transform self tp pn item = (v', Inl e)"
      "process_items self tp pn (item # rest) (recs, mn, mx) = (item\<lparr>item_value := v'\<rparr> # rest, Inl e)"
    | (min_fail) v' p where "transform self tp pn item = (v', Inr p)"
      "process_items self tp pn (item # rest) (recs, mn, mx) = (item\<lparr>item_value := v'\<rparr> # rest, Inl TypeError)"
    | (max_fail) v' p where "transform self tp pn item = (v', Inr p)"
      "process_items self tp pn (item # rest) (recs, mn, mx) = (item\<lparr>item_value := v'\<rparr> # rest, Inl TypeError)"
    | (step) v' p mn' mx' where "transform self tp pn item = (v', Inr p)"
      "process_items self tp pn (item # rest) (recs, mn, mx) =
       (item\<lparr>item_value := v'\<rparr> # fst (process_items self tp pn rest (recs @ [p], mn', mx')),
        snd (process_items self tp pn rest (recs @ [p], mn', mx')))"
proof -
  obtain v' r where t: "transform self tp pn item = (v', r)" by (cases "transform self tp pn item")
  show ?thesis
  proof (cases r)
    case (Inl e)
    with t process_items_fail_transform[of self tp pn item v' e rest recs mn mx] transform_fail
    show ?thesis by blast
  next
    case (Inr p)
    note p = this
    show ?thesis
    proof (cases "py_min (pt_time p) mn")
      case (Inl e)
      with py_min_error have "e = TypeError" by blast
      with t p Inl process_items_fail_min[of self tp pn item v' p mn e rest recs mx] min_fail
      show ?thesis by blast
    next
      case (Inr mn')
      note mn' = this
      show ?thesis
      proof (cases "py_max (pt_time p) mx")
        case (Inl e)
        with py_max_error have "e = TypeError" by blast
        with t p mn' Inl process_items_fail_max[of self tp pn item v' p mn mn' mx e rest recs] max_fail
        show ?thesis by blast
      next
        case (Inr mx')
        with t p mn' process_items_step[of self tp pn item v' p mn mn' mx mx' rest recs] step
        show ?thesis by blast
      qed
    qed
  qed
qed

lemma tags_removed_iff:
  "tags_removed self item item' \<longleftrightarrow>
     item_key item' = item_key item \<and> item_timestamp item' = item_timestamp item
     \<and> (\<exists>ks. set ks \<subseteq> set (elements (self_tags_keys self (item_value item)) (item_value item))
              \<and> item_value item' = drop_keys ks (item_value item))"
proof -
  let ?tks = "elements (self_tags_keys self (item_value item)) (item_value item)"
  let ?v = "item_value item"
  let ?v' = "item_value item'"
  let ?gone = "filter (\<lambda>k. \<not> dict_contains ?v' k) ?tks"
  have "?v' = drop_keys ?gone ?v" if ks: "set ks \<subseteq> set ?tks" "?v' = drop_keys ks ?v" for ks
  proof -
    have "(k \<notin> set ?gone) = (k \<notin> set ks)" if "(k, x) \<in> set ?v" for k x
    proof (cases "k \<in> set ks")
      case True
      with ks have "k \<in> set ?tks" and "map_of ?v' k = None"
        by (auto simp: map_of_drop_keys)
      with True show ?thesis by (simp add: dict_contains_def)
    next
      case False
      from that have "map_of ?v k \<noteq> None" by (simp add: map_of_eq_None_iff image_iff) force
      with False ks have "map_of ?v' k \<noteq> None" by (simp add: map_of_drop_keys)
      with False show ?thesis by (simp add: dict_contains_def)
    qed
    then have "drop_keys ?gone ?v = drop_keys ks ?v"
      unfolding drop_keys_def by (intro filter_cong) auto
    with ks show ?thesis by simp
  qed
  moreover have "set ?gone \<subseteq> set ?tks" by auto
  ultimately show ?thesis unfolding tags_removed_def by blast
qed

lemma tags_removed_refl: "tags_removed self item item"
proof -
  have "set [] \<subseteq> set (elements (self_tags_keys self (item_value item)) (item_value item))
        \<and> item_value item = drop_keys [] (item_value item)"
    by (simp add: drop_keys_Nil)
  then show ?thesis unfolding tags_removed_iff by blast
qed

lemma tags_removed_transform:
  "transform self tp pn item = (v', r) \<Longrightarrow> tags_removed self item (item\<lparr>item_value := v'\<rparr>)"
  using transform_value_any[of self tp pn item v' r] unfolding tags_removed_iff by simp

lemma item_after_transform:
  "transform self tp pn item = (v', Inr p) \<Longrightarrow> item\<lparr>item_value := v'\<rparr> = item_after self item"
  using transform_value[of self tp pn item v' p] by (simp add: item_after_def)

lemma list_all2_tags_removed_refl: "list_all2 (tags_removed self) its its"
  by (simp add: list_all2_refl tags_removed_refl)

lemma process_items_any:
  "process_items self tp pn its (recs, mn, mx) = (its', r) \<Longrightarrow>
     list_all2 (tags_removed self) its its'"
proof (induction its arbitrary: recs mn mx its' r)
  case Nil
  then show ?case by simp
next
  case (Cons item rest)
  show ?case
  proof (cases rule: process_items_cases[of self tp pn item rest recs mn mx])
    case (transform_fail v' e)
    with Cons.prems have "its' = item\<lparr>item_value := v'\<rparr> # rest" by simp
    with tags_removed_transform[OF transform_fail(1)] show ?thesis
      by (simp add: list_all2_tags_removed_refl)
  next
    case (min_fail v' p)
    with Cons.prems have "its' = item\<lparr>item_value := v'\<rparr> # rest" by simp
    with tags_removed_transform[OF min_fail(1)] show ?thesis
      by (simp add: list_all2_tags_removed_refl)
  next
    case (max_fail v' p)
    with Cons.prems have "its' = item\<lparr>item_value := v'\<rparr> # rest" by simp
    with tags_removed_transform[OF max_fail(1)] show ?thesis
      by (simp add: list_all2_tags_removed_refl)
  next
    case (step v' p mn' mx')
    obtain rest' q where pr: "process_items self tp pn rest (recs @ [p], mn', mx') = (rest', q)"
      by (cases "process_items self tp pn rest (recs @ [p], mn', mx')")
    with step(2) Cons.prems have "its' = item\<lparr>item_value := v'\<rparr> # rest'" by simp
    with Cons.IH[OF pr] tags_removed_transform[OF step(1)] show ?thesis by simp
  qed
qed

lemma process_items_error:
  "process_items self tp pn its (recs, mn, mx) = (its', Inl e) \<Longrightarrow>
     (\<exists>k. e = KeyError k) \<or> e = TypeError"
proof (induction its arbitrary: recs mn mx its')
  case Nil
  then show ?case by simp
next
  case (Cons item rest)
  show ?case
  proof (cases rule: process_items_cases[of self tp pn item rest recs mn mx])
    case (transform_fail v' e')
    with Cons.prems have "e = e'" by simp
    with transform_error[OF transform_fail(1)] show ?thesis by simp
  next
    case (min_fail v' p)
    with Cons.prems show ?thesis by simp
  next
    case (max_fail v' p)
    with Cons.prems show ?thesis by simp
  next
    case (step v' p mn' mx')
    obtain rest' q where pr: "process_items self tp pn rest (recs @ [p], mn', mx') = (rest', q)"
      by (cases "process_items self tp pn rest (recs @ [p], mn', mx')")
    with step(2) Cons.prems have "q = Inl e" by simp
    with Cons.IH[of "recs @ [p]" mn' mx' rest'] pr show ?thesis by simp
  qed
qed

lemma process_items_ok:
  "process_items self tp pn its (recs, mn, mx) = (its', Inr (recs', mn', mx')) \<Longrightarrow>
     its' = map (item_after self) its
   \<and> (\<exists>ps. recs' = recs @ ps
          \<and> map Inr ps = map (\<lambda>item. snd (transform self tp pn item)) its)"
proof (induction its arbitrary: recs mn mx its')
  case Nil
  then show ?case by simp
next
  case (Cons item rest)
  show ?case
  proof (cases rule: process_items_cases[of self tp pn item rest recs mn mx])
    case (transform_fail v' e')
    with Cons.prems show ?thesis by simp
  next
    case (min_fail v' p)
    with Cons.prems show ?thesis by simp
  next
    case (max_fail v' p)
    with Cons.prems show ?thesis by simp
  next
    case (step v' p m1 m2)
    obtain rest' q where pr: "process_items self tp pn rest (recs @ [p], m1, m2) = (rest', q)"
      by (cases "process_items self tp pn rest (recs @ [p], m1, m2)")
    with step(2) Cons.prems have its': "its' = item\<lparr>item_value := v'\<rparr> # rest'"
      and q: "q = Inr (recs', mn', mx')" by simp_all
    from Cons.IH[of "recs @ [p]" m1 m2 rest'] pr q obtain ps where
      r: "rest' = map (item_after self) rest" and ps: "recs' = (recs @ [p]) @ ps"
      and m: "map Inr ps = map (\<lambda>item. snd (transform self tp pn item)) rest"
      by blast
    have a: "its' = map (item_after self) (item # rest)"
      using its' r item_after_transform[OF step(1)] by simp
    have "recs' = recs @ (p # ps)
          \<and> map Inr (p # ps) = map (\<lambda>item. snd (transform self tp pn item)) (item # rest)"
      using ps m step(1) by simp
    then have "\<exists>ps. recs' = recs @ ps
          \<and> map Inr ps = map (\<lambda>item. snd (transform self tp pn item)) (item # rest)"
      by (rule exI)
    with a show ?thesis by simp
  qed
qed

lemma process_items_total:
  "(\<forall>item \<in> set its. \<exists>v p. transform self tp pn item = (v, Inr p) \<and> py_num (pt_time p) \<noteq> None) \<Longrightarrow>
   py_num mn \<noteq> None \<Longrightarrow> py_num mx \<noteq> None \<Longrightarrow>
     \<exists>its' recs' mn' mx'. process_items self tp pn its (recs, mn, mx) = (its', Inr (recs', mn', mx'))
        \<and> py_num mn' \<noteq> None \<and> py_num mx' \<noteq> None"
proof (induction its arbitrary: recs mn mx)
  case Nil
  then show ?case by simp
next
  case (Cons item rest)
  from Cons.prems(1) obtain v p where t: "transform self tp pn item = (v, Inr p)"
    and n: "py_num (pt_time p) \<noteq> None" by auto
  from py_min_num[OF n Cons.prems(2)] obtain m1 where m1: "py_min (pt_time p) mn = Inr m1"
    "py_num m1 \<noteq> None" by blast
  from py_max_num[OF n Cons.prems(3)] obtain m2 where m2: "py_max (pt_time p) mx = Inr m2"
    "py_num m2 \<noteq> None" by blast
  have "\<forall>item \<in> set rest. \<exists>v p. transform self tp pn item = (v, Inr p) \<and> py_num (pt_time p) \<noteq> None"
    using Cons.prems(1) by simp
  from Cons.IH[OF this m1(2) m2(2), of "recs @ [p]"] obtain its' recs' mn' mx' where
    r: "process_items self tp pn rest (recs @ [p], m1, m2) = (its', Inr (recs', mn', mx'))"
    "py_num mn' \<noteq> None" "py_num mx' \<noteq> None" by blast
  from process_items_step[OF t m1(1) m2(1), of rest recs] r
  show ?case by simp
qed

section \<open>Properties of the loop over the chunks\<close>

lemma client_calls_simps:
  "client_calls [] = []"
  "client_calls (Monotonic # evs) = client_calls evs"
  "client_calls (LogInfo n mn mx # evs) = client_calls evs"
  "client_calls (ClientWrite rs wp r # evs) = rs # client_calls evs"
  by (simp_all add: client_calls_def)

lemma write_chunks_fail_process:
  "process_items self tp pn chunk ([], PInt sys_maxsize, PInt (- 1)) = (its, Inl e) \<Longrightarrow>
     write_chunks self cl tp pn (chunk # chunks) c = (its @ concat chunks, c, [], Some e)"
  by simp

lemma write_chunks_fail_client:
  "process_items self tp pn chunk ([], PInt sys_maxsize, PInt (- 1)) = (its, Inr (recs, mn, mx)) \<Longrightarrow>
   cl c recs (self_write_precision self) = (Some exc, c') \<Longrightarrow>
     write_chunks self cl tp pn (chunk # chunks) c =
       (its @ concat chunks, c',
        [Monotonic, ClientWrite recs (self_write_precision self) (Some exc)],
        Some (on_write_error exc tp pn))"
  by simp

lemma write_chunks_step:
  "process_items self tp pn chunk ([], PInt sys_maxsize, PInt (- 1)) = (its, Inr (recs, mn, mx)) \<Longrightarrow>
   cl c recs (self_write_precision self) = (None, c') \<Longrightarrow>
   write_chunks self cl tp pn chunks c' = (its', c'', evs, r) \<Longrightarrow>
     write_chunks self cl tp pn (chunk # chunks) c =
       (its @ its', c'',
        [Monotonic, ClientWrite recs (self_write_precision self) None,
         Monotonic, LogInfo (length recs) mn mx] @ evs, r)"
  by simp

lemma write_chunks_cases:
  obtains (process_fail) its e where
      "process_items self tp pn chunk ([], PInt sys_maxsize, PInt (- 1)) = (its, Inl e)"
      "write_chunks self cl tp pn (chunk # chunks) c = (its @ concat chunks, c, [], Some e)"
    | (client_fail) its recs mn mx exc c' where
      "process_items self tp pn chunk ([], PInt sys_maxsize, PInt (- 1)) = (its, Inr (recs, mn, mx))"
      "cl c recs (self_write_precision self) = (Some exc, c')"
      "write_chunks self cl tp pn (chunk # chunks) c =
         (its @ concat chunks, c',
          [Monotonic, ClientWrite recs (self_write_precision self) (Some exc)],
          Some (on_write_error exc tp pn))"
    | (step) its recs mn mx c' its' c'' evs r where
      "process_items self tp pn chunk ([], PInt sys_maxsize, PInt (- 1)) = (its, Inr (recs, mn, mx))"
      "cl c recs (self_write_precision self) = (None, c')"
      "write_chunks self cl tp pn chunks c' = (its', c'', evs, r)"
      "write_chunks self cl tp pn (chunk # chunks) c =
         (its @ its', c'',
          [Monotonic, ClientWrite recs (self_write_precision self) None,
           Monotonic, LogInfo (length recs) mn mx] @ evs, r)"
proof -
  obtain its q where pr: "process_items self tp pn chunk ([], PInt sys_maxsize, PInt (- 1)) = (its, q)"
    by (cases "process_items self tp pn chunk ([], PInt sys_maxsize, PInt (- 1))")
  show ?thesis
  proof (cases q)
    case (Inl e)
    with pr write_chunks_fail_process[of self tp pn chunk its e cl chunks c] process_fail
    show ?thesis by blast
  next
    case (Inr st)
    obtain recs mn mx where st: "st = (recs, mn, mx)" by (cases st)
    obtain x c' where cw: "cl c recs (self_write_precision self) = (x, c')"
      by (cases "cl c recs (self_write_precision self)")
    show ?thesis
    proof (cases x)
      case None
      obtain its' c'' evs r where w: "write_chunks self cl tp pn chunks c' = (its', c'', evs, r)"
        by (cases "write_chunks self cl tp pn chunks c'")
      from pr Inr st cw None w
        write_chunks_step[of self tp pn chunk its recs mn mx cl c c' chunks its' c'' evs r] step
      show ?thesis by blast
    next
      case (Some exc)
      from pr Inr st cw Some
        write_chunks_fail_client[of self tp pn chunk its recs mn mx cl c exc c' chunks] client_fail
      show ?thesis by blast
    qed
  qed
qed

lemma write_chunks_any:
  "write_chunks self cl tp pn chunks c = (its, c', evs, r) \<Longrightarrow>
     list_all2 (tags_removed self) (concat chunks) its"
proof (induction chunks arbitrary: c its c' evs r)
  case Nil
  then show ?case by simp
next
  case (Cons chunk chunks)
  show ?case
  proof (cases rule: write_chunks_cases[of self tp pn chunk cl chunks c])
    case (process_fail its0 e)
    with Cons.prems have "its = its0 @ concat chunks" by simp
    with process_items_any[OF process_fail(1)] show ?thesis
      by (simp add: list_all2_appendI list_all2_tags_removed_refl)
  next
    case (client_fail its0 recs mn mx exc c0)
    with Cons.prems have "its = its0 @ concat chunks" by simp
    with process_items_any[OF client_fail(1)] show ?thesis
      by (simp add: list_all2_appendI list_all2_tags_removed_refl)
  next
    case (step its0 recs mn mx c0 its1 c1 evs1 r1)
    with Cons.prems have "its = its0 @ its1" by simp
    with process_items_any[OF step(1)] Cons.IH[OF step(3)] show ?thesis
      by (simp add: list_all2_appendI)
  qed
qed

lemma write_chunks_raised:
  "write_chunks self cl tp pn chunks c = (its, c', evs, r) \<Longrightarrow>
   ClientWrite rs wp (Some exc) \<in> set evs \<Longrightarrow>
     r = Some (on_write_error exc tp pn)"
proof (induction chunks arbitrary: c its c' evs r)
  case Nil
  then show ?case by simp
next
  case (Cons chunk chunks)
  show ?case
  proof (cases rule: write_chunks_cases[of self tp pn chunk cl chunks c])
    case (process_fail its0 e)
    with Cons.prems show ?thesis by simp
  next
    case (client_fail its0 recs mn mx exc0 c0)
    with Cons.prems show ?thesis by auto
  next
    case (step its0 recs mn mx c0 its1 c1 evs1 r1)
    with Cons.prems have "ClientWrite rs wp (Some exc) \<in> set evs1" and "r = r1" by auto
    with Cons.IH[OF step(3)] show ?thesis by simp
  qed
qed

lemma write_chunks_ok:
  "write_chunks self cl tp pn chunks c = (its, c', evs, None) \<Longrightarrow>
     its = map (item_after self) (concat chunks)
   \<and> map (map Inr) (client_calls evs)
       = map (map (\<lambda>item. snd (transform self tp pn item))) chunks
   \<and> map erase_stats evs
       = concat (map (timed_write (self_write_precision self)) (client_calls evs))"
proof (induction chunks arbitrary: c its c' evs)
  case Nil
  then show ?case by (simp add: client_calls_simps)
next
  case (Cons chunk chunks)
  show ?case
  proof (cases rule: write_chunks_cases[of self tp pn chunk cl chunks c])
    case (process_fail its0 e)
    with Cons.prems show ?thesis by simp
  next
    case (client_fail its0 recs mn mx exc0 c0)
    with Cons.prems show ?thesis by simp
  next
    case (step its0 recs mn mx c0 its1 c1 evs1 r1)
    with Cons.prems have its: "its = its0 @ its1" and r1: "r1 = None"
      and evs: "evs = [Monotonic, ClientWrite recs (self_write_precision self) None,
                       Monotonic, LogInfo (length recs) mn mx] @ evs1"
      by simp_all
    from process_items_ok[OF step(1)] have i0: "its0 = map (item_after self) chunk"
      and p0: "map Inr recs = map (\<lambda>item. snd (transform self tp pn item)) chunk"
      by auto
    from Cons.IH[of c0 its1 c1 evs1] step(3) r1 have
      i1: "its1 = map (item_after self) (concat chunks)"
      and p1: "map (map Inr) (client_calls evs1)
                = map (map (\<lambda>item. snd (transform self tp pn item))) chunks"
      and e1: "map erase_stats evs1
                = concat (map (timed_write (self_write_precision self)) (client_calls evs1))"
      by simp_all
    have cc: "client_calls evs = recs # client_calls evs1"
      using evs by (simp add: client_calls_simps)
    have ee: "map erase_stats evs
                = timed_write (self_write_precision self) recs @ map erase_stats evs1"
      using evs by (simp add: timed_write_def)
    show ?thesis
      using its i0 i1 p0 p1 cc by (simp add: ee e1)
  qed
qed

lemma write_chunks_total:
  assumes "\<forall>chunk \<in> set chunks. \<forall>item \<in> set chunk.
             \<exists>v p. transform self tp pn item = (v, Inr p) \<and> py_num (pt_time p) \<noteq> None"
      and "\<forall>c rs wp. fst (cl c rs wp) = None"
  shows "\<exists>its c' evs. write_chunks self cl tp pn chunks c = (its, c', evs, None)"
  using assms(1)
proof (induction chunks arbitrary: c)
  case Nil
  then show ?case by simp
next
  case (Cons chunk chunks)
  have "\<forall>item \<in> set chunk.
          \<exists>v p. transform self tp pn item = (v, Inr p) \<and> py_num (pt_time p) \<noteq> None"
    using Cons.prems by simp
  from process_items_total[OF this, where mn = "PInt sys_maxsize" and mx = "PInt (- 1)"
                                        and recs = "[]"]
  obtain its0 recs mn mx where
    pr: "process_items self tp pn chunk ([], PInt sys_maxsize, PInt (- 1)) = (its0, Inr (recs, mn, mx))"
    by auto
  obtain x c0 where cw: "cl c recs (self_write_precision self) = (x, c0)"
    by (cases "cl c recs (self_write_precision self)")
  with assms(2) have x: "x = None" by (metis fst_conv)
  have "\<forall>chunk \<in> set chunks. \<forall>item \<in> set chunk.
             \<exists>v p. transform self tp pn item = (v, Inr p) \<and> py_num (pt_time p) \<noteq> None"
    using Cons.prems by simp
  from Cons.IH[OF this, of c0] obtain its1 c1 evs1 where
    w: "write_chunks self cl tp pn chunks c0 = (its1, c1, evs1, None)" by blast
  from cw x have "cl c recs (self_write_precision self) = (None, c0)" by simp
  from write_chunks_step[OF pr this w] show ?case by blast
qed

lemma write_chunks_replay:
  "write_chunks self cl tp pn chunks c = (its, c', evs, r) \<Longrightarrow> replay cl c evs = (True, c')"
proof (induction chunks arbitrary: c its c' evs r)
  case Nil
  then show ?case by simp
next
  case (Cons chunk chunks)
  show ?case
  proof (cases rule: write_chunks_cases[of self tp pn chunk cl chunks c])
    case (process_fail its0 e)
    with Cons.prems show ?thesis by simp
  next
    case (client_fail its0 recs mn mx exc0 c0)
    with Cons.prems have "evs = [Monotonic, ClientWrite recs (self_write_precision self) (Some exc0)]"
      and "c' = c0" by simp_all
    with client_fail(2) show ?thesis by simp
  next
    case (step its0 recs mn mx c0 its1 c1 evs1 r1)
    with Cons.prems have evs: "evs = [Monotonic, ClientWrite recs (self_write_precision self) None,
                       Monotonic, LogInfo (length recs) mn mx] @ evs1"
      and c': "c' = c1" by simp_all
    from Cons.IH[OF step(3)] have "replay cl c0 evs1 = (True, c1)" .
    with step(2) evs c' show ?thesis by simp
  qed
qed

lemma replay_recording_client:
  "replay recording_client c evs = (b, c') \<Longrightarrow> c' = c @ client_calls evs"
proof (induction evs arbitrary: c b c')
  case Nil
  then show ?case by (simp add: client_calls_simps)
next
  case (Cons ev evs)
  show ?case
  proof (cases ev)
    case Monotonic
    with Cons show ?thesis by (simp add: client_calls_simps)
  next
    case (LogInfo n mn mx)
    with Cons show ?thesis by (simp add: client_calls_simps)
  next
    case (ClientWrite rs wp r)
    obtain b1 c1 where r1: "replay recording_client (c @ [rs]) evs = (b1, c1)"
      by (cases "replay recording_client (c @ [rs]) evs")
    have "recording_client c rs wp = (None, c @ [rs])" by (simp add: recording_client_def)
    with Cons.prems ClientWrite r1 have "c' = c1" by simp
    with Cons.IH[OF r1] ClientWrite show ?thesis by (simp add: client_calls_simps)
  qed
qed

section \<open>Properties of writing a batch\<close>

lemma sink_write_Inl:
  "iter_chunks (self_batch_size self) (items batch) = Inl e \<Longrightarrow>
   sink_write self cl batch c =
     \<lparr> out_items = items batch, out_client = c, out_events = [], out_raised = Some e \<rparr>"
  by (simp add: sink_write_def)

lemma sink_write_Inr:
  "iter_chunks (self_batch_size self) (items batch) = Inr chunks \<Longrightarrow>
   write_chunks self cl (topic batch) (partition batch) chunks c = (its, c', evs, r) \<Longrightarrow>
   sink_write self cl batch c =
     \<lparr> out_items = its, out_client = c', out_events = evs, out_raised = r \<rparr>"
  by (simp add: sink_write_def)

lemma sink_write_cases:
  obtains (no_chunks) e where
      "iter_chunks (self_batch_size self) (items batch) = Inl e"
      "sink_write self cl batch c =
         \<lparr> out_items = items batch, out_client = c, out_events = [], out_raised = Some e \<rparr>"
    | (chunks) chunks its c' evs r where
      "iter_chunks (self_batch_size self) (items batch) = Inr chunks"
      "write_chunks self cl (topic batch) (partition batch) chunks c = (its, c', evs, r)"
      "sink_write self cl batch c =
         \<lparr> out_items = its, out_client = c', out_events = evs, out_raised = r \<rparr>"
proof (cases "iter_chunks (self_batch_size self) (items batch)")
  case (Inl e)
  from no_chunks[OF Inl sink_write_Inl[OF Inl]] show ?thesis .
next
  case (Inr chunks)
  obtain its c' evs r where
    w: "write_chunks self cl (topic batch) (partition batch) chunks c = (its, c', evs, r)"
    by (cases "write_chunks self cl (topic batch) (partition batch) chunks c")
  from chunks[OF Inr w sink_write_Inr[OF Inr w]] show ?thesis .
qed

lemma sink_write_items_any:
  "list_all2 (tags_removed self) (items batch) (out_items (sink_write self cl batch c))"
proof (cases rule: sink_write_cases[of self batch cl c])
  case (no_chunks e)
  then show ?thesis by (simp add: list_all2_tags_removed_refl)
next
  case (chunks chunks its c' evs r)
  from write_chunks_any[OF chunks(2)] iter_chunks_Inr[OF chunks(1), THEN conjunct2]
  have "list_all2 (tags_removed self) (items batch) its" by simp
  with chunks(3) show ?thesis by simp
qed

lemma sink_write_ok:
  assumes "out_raised (sink_write self cl batch c) = None"
  shows "iter_chunks (self_batch_size self) (items batch)
           = Inr (chunks_of (self_batch_size self) (items batch))"
    and "concat (chunks_of (self_batch_size self) (items batch)) = items batch"
    and "out_items (sink_write self cl batch c) = map (item_after self) (items batch)"
    and "map (map Inr) (client_calls (out_events (sink_write self cl batch c)))
           = map (map (\<lambda>item. snd (transform self (topic batch) (partition batch) item)))
               (chunks_of (self_batch_size self) (items batch))"
    and "map erase_stats (out_events (sink_write self cl batch c))
           = concat (map (timed_write (self_write_precision self))
                         (client_calls (out_events (sink_write self cl batch c))))"
proof -
  have "iter_chunks (self_batch_size self) (items batch)
           = Inr (chunks_of (self_batch_size self) (items batch))
      \<and> concat (chunks_of (self_batch_size self) (items batch)) = items batch
      \<and> out_items (sink_write self cl batch c) = map (item_after self) (items batch)
      \<and> map (map Inr) (client_calls (out_events (sink_write self cl batch c)))
           = map (map (\<lambda>item. snd (transform self (topic batch) (partition batch) item)))
               (chunks_of (self_batch_size self) (items batch))
      \<and> map erase_stats (out_events (sink_write self cl batch c))
           = concat (map (timed_write (self_write_precision self))
                         (client_calls (out_events (sink_write self cl batch c))))"
  proof (cases rule: sink_write_cases[of self batch cl c])
    case (no_chunks e)
    with assms show ?thesis by simp
  next
    case (chunks chunks its c' evs r)
    from chunks(3) assms have "r = None" by simp
    with chunks(2) have
      w: "write_chunks self cl (topic batch) (partition batch) chunks c = (its, c', evs, None)"
      by simp
    have cs: "chunks = chunks_of (self_batch_size self) (items batch)"
      by (rule iter_chunks_Inr[OF chunks(1), THEN conjunct1])
    have cc: "concat chunks = items batch"
      by (rule iter_chunks_Inr[OF chunks(1), THEN conjunct2])
    from write_chunks_ok[OF w] have
      i: "its = map (item_after self) (concat chunks)"
      and p: "map (map Inr) (client_calls evs)
         = map (map (\<lambda>item. snd (transform self (topic batch) (partition batch) item))) chunks"
      and e: "map erase_stats evs
         = concat (map (timed_write (self_write_precision self)) (client_calls evs))"
      by simp_all
    from chunks(1) cs have a: "iter_chunks (self_batch_size self) (items batch)
           = Inr (chunks_of (self_batch_size self) (items batch))" by simp
    from cc cs have b: "concat (chunks_of (self_batch_size self) (items batch)) = items batch"
      by simp
    from i cc have i': "its = map (item_after self) (items batch)" by simp
    from p cs have p': "map (map Inr) (client_calls evs)
         = map (map (\<lambda>item. snd (transform self (topic batch) (partition batch) item)))
               (chunks_of (self_batch_size self) (items batch))" by simp
    from a b i' p' e chunks(3) show ?thesis by simp
  qed
  then show "iter_chunks (self_batch_size self) (items batch)
           = Inr (chunks_of (self_batch_size self) (items batch))"
    and "concat (chunks_of (self_batch_size self) (items batch)) = items batch"
    and "out_items (sink_write self cl batch c) = map (item_after self) (items batch)"
    and "map (map Inr) (client_calls (out_events (sink_write self cl batch c)))
           = map (map (\<lambda>item. snd (transform self (topic batch) (partition batch) item)))
               (chunks_of (self_batch_size self) (items batch))"
    and "map erase_stats (out_events (sink_write self cl batch c))
           = concat (map (timed_write (self_write_precision self))
                         (client_calls (out_events (sink_write self cl batch c))))"
    by simp_all
qed

lemma sink_write_replay:
  "replay cl c (out_events (sink_write self cl batch c))
     = (True, out_client (sink_write self cl batch c))"
proof (cases rule: sink_write_cases[of self batch cl c])
  case (no_chunks e)
  then show ?thesis by simp
next
  case (chunks chunks its c' evs r)
  from write_chunks_replay[OF chunks(2)] chunks(3) show ?thesis by simp
qed

lemma chunks_of_subset: "chunk \<in> set (chunks_of n xs) \<Longrightarrow> set chunk \<subseteq> set xs"
proof (cases "n = 0")
  case True
  assume "chunk \<in> set (chunks_of n xs)"
  with True show ?thesis by (simp add: chunks_of_zero)
next
  case False
  assume c: "chunk \<in> set (chunks_of n xs)"
  from False have "concat (chunks_of n xs) = xs" by (simp add: concat_chunks_of)
  then have "set xs = (\<Union>c \<in> set (chunks_of n xs). set c)" by (metis set_concat)
  with c show ?thesis by auto
qed

lemma sink_write_returns:
  assumes "0 < self_batch_size self"
      and "\<forall>item \<in> set (items batch).
             \<exists>v p. transform self (topic batch) (partition batch) item = (v, Inr p)
                   \<and> py_num (pt_time p) \<noteq> None"
      and "\<forall>c rs wp. fst (cl c rs wp) = None"
  shows "out_raised (sink_write self cl batch c) = None"
proof -
  have "\<forall>chunk \<in> set (chunks_of (self_batch_size self) (items batch)). \<forall>item \<in> set chunk.
          \<exists>v p. transform self (topic batch) (partition batch) item = (v, Inr p)
                \<and> py_num (pt_time p) \<noteq> None"
    using assms(2) chunks_of_subset by blast
  from write_chunks_total[OF this assms(3), of c] obtain its c' evs where
    "write_chunks self cl (topic batch) (partition batch)
       (chunks_of (self_batch_size self) (items batch)) c = (its, c', evs, None)" by blast
  from sink_write_Inr[OF iter_chunks_pos[OF assms(1)] this] show ?thesis by simp
qed

lemma sink_write_raised:
  assumes "ClientWrite rs wp (Some exc) \<in> set (out_events (sink_write self cl batch c))"
  shows "out_raised (sink_write self cl batch c)
           = Some (on_write_error exc (topic batch) (partition batch))"
proof (cases rule: sink_write_cases[of self batch cl c])
  case (no_chunks e)
  with assms show ?thesis by simp
next
  case (chunks chunks its c' evs r)
  with assms have "ClientWrite rs wp (Some exc) \<in> set evs" by simp
  from write_chunks_raised[OF chunks(2) this] chunks(3) show ?thesis by simp
qed

lemma sink_write_zero:
  "self_batch_size self = 0 \<Longrightarrow> items batch \<noteq> [] \<Longrightarrow>
   sink_write self cl batch c =
     \<lparr> out_items = items batch, out_client = c, out_events = [],
       out_raised = Some (ValueError ChunkSizeBelowOne) \<rparr>"
  by (simp add: sink_write_def iter_chunks_def)

lemma chunks_of_single: "0 < n \<Longrightarrow> chunks_of n [x] = [[x]]"
  by (simp add: chunks_of_step chunks_of_Nil)

lemma iter_chunks_plain_batch:
  "iter_chunks (self_batch_size plain_sink) (items plain_batch) = Inr [[ex_item]]"
  by (simp add: plain_batch_def plain_sink_simps iter_chunks_pos chunks_of_single)

lemma process_plain_batch:
  "process_items plain_sink ''t'' 2 [ex_item] ([], PInt sys_maxsize, PInt (- 1)) =
     ([ex_item\<lparr>item_value := [(''temp'', PInt 21), (''__key'', PStr ''user'')]\<rparr>],
      Inr ([plain_point], PInt 1700, PInt 1700))"
  by (simp add: transform_plain_sink plain_point_def py_min_def py_max_def py_lt_def
                sys_maxsize_def)

lemma write_plain_batch_failing:
  "sink_write plain_sink (failing_client exc) plain_batch n =
     \<lparr> out_items = [ex_item\<lparr>item_value := [(''temp'', PInt 21), (''__key'', PStr ''user'')]\<rparr>],
       out_client = Suc n,
       out_events = [Monotonic, ClientWrite [plain_point] MS (Some exc)],
       out_raised = Some (on_write_error exc ''t'' 2) \<rparr>"
proof -
  have cw: "failing_client exc n [plain_point] (self_write_precision plain_sink) = (Some exc, Suc n)"
    by (simp add: failing_client_def)
  have "write_chunks plain_sink (failing_client exc) ''t'' 2 [[ex_item]] n =
          ([ex_item\<lparr>item_value := [(''temp'', PInt 21), (''__key'', PStr ''user'')]\<rparr>] @ concat [],
           Suc n, [Monotonic, ClientWrite [plain_point] (self_write_precision plain_sink) (Some exc)],
           Some (on_write_error exc ''t'' 2))"
    by (rule write_chunks_fail_client[where cl = "failing_client exc" and c = n
                and exc = exc and c' = "Suc n", OF process_plain_batch cw])
  then have "write_chunks plain_sink (failing_client exc) (topic plain_batch) (partition plain_batch)
          [[ex_item]] n =
          ([ex_item\<lparr>item_value := [(''temp'', PInt 21), (''__key'', PStr ''user'')]\<rparr>],
           Suc n, [Monotonic, ClientWrite [plain_point] MS (Some exc)],
           Some (on_write_error exc ''t'' 2))"
    by (simp add: plain_batch_def plain_sink_simps)
  from sink_write_Inr[OF iter_chunks_plain_batch this] show ?thesis .
qed

lemma write_plain_batch_ok:
  "sink_write plain_sink recording_client plain_batch [] =
     \<lparr> out_items = [ex_item\<lparr>item_value := [(''temp'', PInt 21), (''__key'', PStr ''user'')]\<rparr>],
       out_client = [[plain_point]],
       out_events = [Monotonic, ClientWrite [plain_point] MS None, Monotonic,
                     LogInfo 1 (PInt 1700) (PInt 1700)],
       out_raised = None \<rparr>"
proof -
  have cw: "recording_client [] [plain_point] (self_write_precision plain_sink)
              = (None, [[plain_point]])"
    by (simp add: recording_client_def)
  have nil: "write_chunks plain_sink recording_client ''t'' 2 [] [[plain_point]]
               = ([], [[plain_point]], [], None)"
    by simp
  have "write_chunks plain_sink recording_client ''t'' 2 [[ex_item]] [] =
          ([ex_item\<lparr>item_value := [(''temp'', PInt 21), (''__key'', PStr ''user'')]\<rparr>] @ [],
           [[plain_point]],
           [Monotonic, ClientWrite [plain_point] (self_write_precision plain_sink) None,
            Monotonic, LogInfo (length [plain_point]) (PInt 1700) (PInt 1700)] @ [],
           None)"
    by (rule write_chunks_step[where cl = recording_client and c = "[]"
                and c' = "[[plain_point]]", OF process_plain_batch cw nil])
  then have "write_chunks plain_sink recording_client (topic plain_batch) (partition plain_batch)
          [[ex_item]] [] =
          ([ex_item\<lparr>item_value := [(''temp'', PInt 21), (''__key'', PStr ''user'')]\<rparr>],
           [[plain_point]],
           [Monotonic, ClientWrite [plain_point] MS None,
            Monotonic, LogInfo 1 (PInt 1700) (PInt 1700)],
           None)"
    by (simp add: plain_batch_def plain_sink_simps)
  from sink_write_Inr[OF iter_chunks_plain_batch this] show ?thesis .
qed

section \<open>Destination failures\<close>

lemma int_of_str_examples:
  "int_of_str ''30'' = Some 30"
  "int_of_str '' 30 '' = Some 30"
  "int_of_str [CHR 0x1C, CHR ''3'', CHR ''0''] = None"
  "int_of_str [CHR 0xA0, CHR ''3'', CHR ''0'', CHR 0x85] = Some 30"
  "int_of_str ''1_000'' = Some 1000"
  "int_of_str ''-7'' = Some (- 7)"
  "int_of_str ''1.5'' = None"
  "int_of_str ''Wed, 21 Oct 2015 07:28:00 GMT'' = None"
  by (simp_all add: int_of_str_def py_strip_def py_isspace_def digit_val_def
                    count_digits_def int_max_str_digits_def)

text \<open>
  What leaves the write when the destination call raised: a backpressure error when the
  failure is an InfluxDB error with a response of status 429 and a retry-after value
  that is true and that \<^verbatim>\<open>int\<close> converts; the failure itself when it is of another class,
  has no response, another status, or a retry-after value that is false.
\<close>

lemma write_error_translation:
  assumes "ClientWrite records wp (Some exc) \<in> set (out_events (sink_write self cl batch c))"
  shows "(\<forall>r ra n. exc = InfluxDBError (Some r) ra \<and> status r = 429 \<and> py_truthy ra
                   \<and> py_int ra = Inr n
            \<longrightarrow> out_raised (sink_write self cl batch c)
                  = Some (SinkBackpressureError n (topic batch) (partition batch)))
       \<and> (\<forall>r ra. exc = InfluxDBError (Some r) ra \<and> (status r \<noteq> 429 \<or> \<not> py_truthy ra)
            \<longrightarrow> out_raised (sink_write self cl batch c) = Some (Propagated exc))
       \<and> (\<forall>ra. exc = InfluxDBError None ra
            \<longrightarrow> out_raised (sink_write self cl batch c) = Some (Propagated exc))
       \<and> (\<forall>name. exc = OtherException name
            \<longrightarrow> out_raised (sink_write self cl batch c) = Some (Propagated exc))"
proof -
  have r: "out_raised (sink_write self cl batch c)
             = Some (on_write_error exc (topic batch) (partition batch))"
    by (rule sink_write_raised[OF assms])
  show ?thesis
    unfolding r by (auto simp: on_write_error_def is_backpressure_def exc_retry_after_def)
qed

text \<open>
  Claim C1 fails on the code for a destination failure with status 429 whose retry-after
  value is an HTTP date, a form the \<^verbatim>\<open>Retry-After\<close> header may take: the failure passes
  the test of the handler, whose comment says that a \<^verbatim>\<open>SinkBackpressureError\<close> is raised,
  and the conversion \<^verbatim>\<open>int(exc.retry_after)\<close> inside the \<^verbatim>\<open>raise\<close> statement then raises
  \<^verbatim>\<open>ValueError\<close>. The destination was called once; no backpressure error leaves the
  write, and the destination's failure does not propagate unchanged either. With a
  number of seconds in the header the backpressure error is raised.
\<close>

theorem backpressure_http_date:
  "is_backpressure http_date_429
   \<and> sink_write plain_sink (failing_client http_date_429) plain_batch 0 =
       \<lparr> out_items = [ex_item\<lparr>item_value := [(''temp'', PInt 21), (''__key'', PStr ''user'')]\<rparr>],
         out_client = 1,
         out_events = [Monotonic, ClientWrite [plain_point] MS (Some http_date_429)],
         out_raised = Some (ValueError InvalidLiteralForInt) \<rparr>
   \<and> sink_write plain_sink (failing_client seconds_429) plain_batch 0 =
       \<lparr> out_items = [ex_item\<lparr>item_value := [(''temp'', PInt 21), (''__key'', PStr ''user'')]\<rparr>],
         out_client = 1,
         out_events = [Monotonic, ClientWrite [plain_point] MS (Some seconds_429)],
         out_raised = Some (SinkBackpressureError 30 ''t'' 2) \<rparr>"
proof -
  have a: "is_backpressure http_date_429" "is_backpressure seconds_429"
    by (simp_all add: is_backpressure_def http_date_429_def seconds_429_def)
  have b: "py_int (exc_retry_after http_date_429) = Inl (ValueError InvalidLiteralForInt)"
    by (simp add: exc_retry_after_def http_date_429_def int_of_str_examples)
  have c: "py_int (exc_retry_after seconds_429) = Inr 30"
    by (simp add: exc_retry_after_def seconds_429_def int_of_str_examples)
  have d: "on_write_error http_date_429 ''t'' 2 = ValueError InvalidLiteralForInt"
    using a b by (simp add: on_write_error_def)
  have e: "on_write_error seconds_429 ''t'' 2 = SinkBackpressureError 30 ''t'' 2"
    using a c by (simp add: on_write_error_def)
  from a d e show ?thesis by (simp add: write_plain_batch_failing)
qed

section \<open>The records after a write\<close>

lemma tags_removed_example:
  "tags_removed plain_sink ex_item
     (ex_item\<lparr>item_value := [(''temp'', PInt 21), (''__key'', PStr ''user'')]\<rparr>)
   \<and> \<not> tags_removed plain_sink ex_item
     (ex_item\<lparr>item_value := [(''host'', PStr ''a''), (''__key'', PStr ''user'')]\<rparr>)"
  by (simp add: tags_removed_def plain_sink_simps ex_item_def ex_value_def drop_keys_def
                dict_contains_def)

text \<open>
  Claim C9, as stated, fails: the tag loop pops the tag keys from the record's own value
  dictionary (\<^verbatim>\<open>value = item.value\<close> is the same object, no copy is made), so after a
  write that returns, and equally after one that raises at the destination call, the
  record's value has lost its host entry.
\<close>

theorem write_alters_values_counterexample:
  "map item_value (items plain_batch)
     = [[(''host'', PStr ''a''), (''temp'', PInt 21), (''__key'', PStr ''user'')]]
   \<and> out_raised (sink_write plain_sink recording_client plain_batch []) = None
   \<and> map item_value (out_items (sink_write plain_sink recording_client plain_batch []))
     = [[(''temp'', PInt 21), (''__key'', PStr ''user'')]]
   \<and> out_raised (sink_write plain_sink
        (failing_client (OtherException ''ConnectionError'')) plain_batch 0)
     = Some (Propagated (OtherException ''ConnectionError''))
   \<and> map item_value (out_items (sink_write plain_sink
        (failing_client (OtherException ''ConnectionError'')) plain_batch 0))
     = [[(''temp'', PInt 21), (''__key'', PStr ''user'')]]"
proof -
  have a: "map item_value (items plain_batch)
     = [[(''host'', PStr ''a''), (''temp'', PInt 21), (''__key'', PStr ''user'')]]"
    by (simp add: plain_batch_def ex_item_def ex_value_def)
  have b: "out_raised (sink_write plain_sink recording_client plain_batch []) = None
   \<and> map item_value (out_items (sink_write plain_sink recording_client plain_batch []))
     = [[(''temp'', PInt 21), (''__key'', PStr ''user'')]]"
    by (simp add: write_plain_batch_ok)
  have c: "out_raised (sink_write plain_sink
        (failing_client (OtherException ''ConnectionError'')) plain_batch 0)
     = Some (Propagated (OtherException ''ConnectionError''))
   \<and> map item_value (out_items (sink_write plain_sink
        (failing_client (OtherException ''ConnectionError'')) plain_batch 0))
     = [[(''temp'', PInt 21), (''__key'', PStr ''user'')]]"
    by (simp add: write_plain_batch_failing on_write_error_def is_backpressure_def)
  from a b c show ?thesis by (intro conjI) (erule conjunct1 conjunct2 | assumption)+
qed

text \<open>
  Claim C9, amended. The sink changes a record only by removing resolved tag keys from its
  value: after a write, whether it returned or raised, every record of the batch has its
  key and timestamp unchanged and a value that is the original one without some of the
  record's resolved tag keys (no entry is added or altered); and after a write with a
  positive chunk size that returned, every record's value is the original one without
  exactly its resolved tag keys.
\<close>

theorem write_alters_values:
  "list_all2 (tags_removed self) (items batch) (out_items (sink_write self cl batch c))
   \<and> (0 < self_batch_size self \<and> out_raised (sink_write self cl batch c) = None
        \<longrightarrow> out_items (sink_write self cl batch c) = map (item_after self) (items batch))"
  using sink_write_items_any[of self batch cl c] sink_write_ok(3)[of self cl batch c]
  by blast

theorem write_alters_values_witness:
  "list_all2 (tags_removed plain_sink) (items plain_batch)
     [ex_item\<lparr>item_value := [(''temp'', PInt 21), (''__key'', PStr ''user'')]\<rparr>]
   \<and> 0 < self_batch_size plain_sink
   \<and> out_raised (sink_write plain_sink recording_client plain_batch []) = None
   \<and> out_items (sink_write plain_sink recording_client plain_batch [])
       = [ex_item\<lparr>item_value := [(''temp'', PInt 21), (''__key'', PStr ''user'')]\<rparr>]
   \<and> map (item_after plain_sink) (items plain_batch)
       = [ex_item\<lparr>item_value := [(''temp'', PInt 21), (''__key'', PStr ''user'')]\<rparr>]"
proof -
  have h: "0 < self_batch_size plain_sink
           \<and> out_raised (sink_write plain_sink recording_client plain_batch []) = None"
    by (simp add: plain_sink_simps write_plain_batch_ok)
  note t = write_alters_values [of plain_sink plain_batch recording_client "[]"]
  from t h
  have a: "out_items (sink_write plain_sink recording_client plain_batch [])
          = map (item_after plain_sink) (items plain_batch)"
    by blast
  from t have "list_all2 (tags_removed plain_sink) (items plain_batch)
                 (out_items (sink_write plain_sink recording_client plain_batch []))"
    by blast
  then have b: "list_all2 (tags_removed plain_sink) (items plain_batch)
     [ex_item\<lparr>item_value := [(''temp'', PInt 21), (''__key'', PStr ''user'')]\<rparr>]"
    by (simp add: write_plain_batch_ok)
  from a b h show ?thesis by (simp add: write_plain_batch_ok)
qed

section \<open>Chunked writes\<close>

lemma transform_big_item:
  "transform plain_sink ''t'' 2 (big_item i) = ([(''temp'', PInt (int i))], Inr (big_point i))"
  by (simp add: transform_def plain_sink_simps big_item_def big_point_def)

text \<open>
  Claim C5. Whenever the batch is split, it is split into consecutive non-empty chunks of
  at most \<^verbatim>\<open>batch_size\<close> records, in the original order, all but the last of full size;
  2500 records with chunk size 1000 give chunks of 1000, 1000 and 500 records, and every
  batch is split when the chunk size is positive. A write that returns has made one
  destination call per chunk, in order, each with the points of that chunk's records in
  order, and each bracketed by its own two clock readings and followed by its own log
  line; so for 2500 records and chunk size 1000 there are exactly three calls, of 1000,
  1000 and 500 points. The calls the write reports are the calls the destination client
  received: running the client again on them, from the state it had, gives the same
  answers and the state the write left it in. The write does return when the chunk size
  is positive, every record transforms to a point with a numeric timestamp and the
  destination raises nothing.
\<close>

theorem chunked_writes:
  "(\<forall>chunks. iter_chunks (self_batch_size self) (items batch) = Inr chunks \<longrightarrow>
       concat chunks = items batch
     \<and> (\<forall>chunk \<in> set chunks. chunk \<noteq> [] \<and> length chunk \<le> self_batch_size self)
     \<and> (\<forall>chunk \<in> set (butlast chunks). length chunk = self_batch_size self)
     \<and> (length (items batch) = 2500 \<and> self_batch_size self = 1000
          \<longrightarrow> map length chunks = [1000, 1000, 500]))
   \<and> (0 < self_batch_size self
        \<longrightarrow> (\<exists>chunks. iter_chunks (self_batch_size self) (items batch) = Inr chunks))
   \<and> (out_raised (sink_write self cl batch c) = None
        \<longrightarrow> (\<exists>chunks. iter_chunks (self_batch_size self) (items batch) = Inr chunks
                \<and> map (map Inr) (client_calls (out_events (sink_write self cl batch c)))
                    = map (map (\<lambda>item. snd (transform self (topic batch) (partition batch) item)))
                          chunks)
            \<and> map erase_stats (out_events (sink_write self cl batch c))
                = concat (map (timed_write (self_write_precision self))
                              (client_calls (out_events (sink_write self cl batch c))))
            \<and> (length (items batch) = 2500 \<and> self_batch_size self = 1000
                 \<longrightarrow> map length (client_calls (out_events (sink_write self cl batch c)))
                       = [1000, 1000, 500]))
   \<and> replay cl c (out_events (sink_write self cl batch c))
       = (True, out_client (sink_write self cl batch c))
   \<and> (0 < self_batch_size self
        \<and> (\<forall>item \<in> set (items batch).
              \<exists>v p. transform self (topic batch) (partition batch) item = (v, Inr p)
                    \<and> py_num (pt_time p) \<noteq> None)
        \<and> (\<forall>c rs wp. fst (cl c rs wp) = None)
        \<longrightarrow> out_raised (sink_write self cl batch c) = None)"
proof -
  let ?n = "self_batch_size self"
  let ?cs = "chunks_of ?n (items batch)"
  let ?w = "sink_write self cl batch c"
  let ?f = "\<lambda>item. snd (transform self (topic batch) (partition batch) item)"
  have d: "map length ?cs = [1000, 1000, 500]"
    if "length (items batch) = 2500" "?n = 1000"
    using that chunks_of_2500[of "items batch"] by simp
  have a: "concat chunks = items batch
     \<and> (\<forall>chunk \<in> set chunks. chunk \<noteq> [] \<and> length chunk \<le> ?n)
     \<and> (\<forall>chunk \<in> set (butlast chunks). length chunk = ?n)
     \<and> (length (items batch) = 2500 \<and> ?n = 1000 \<longrightarrow> map length chunks = [1000, 1000, 500])"
    if i: "iter_chunks ?n (items batch) = Inr chunks" for chunks
  proof -
    have cs: "chunks = ?cs" by (rule iter_chunks_Inr[OF i, THEN conjunct1])
    have a1: "concat chunks = items batch" by (rule iter_chunks_Inr[OF i, THEN conjunct2])
    have a2: "\<forall>chunk \<in> set chunks. chunk \<noteq> [] \<and> length chunk \<le> ?n"
      unfolding cs using chunks_of_nonempty by blast
    have a3: "\<forall>chunk \<in> set (butlast chunks). length chunk = ?n"
      unfolding cs using chunks_of_full by blast
    have a4: "length (items batch) = 2500 \<and> ?n = 1000 \<longrightarrow> map length chunks = [1000, 1000, 500]"
      unfolding cs using d by blast
    from a1 a2 a3 a4 show ?thesis by (intro conjI)
  qed
  have b: "\<exists>chunks. iter_chunks ?n (items batch) = Inr chunks" if "0 < ?n"
    using iter_chunks_pos[OF that] by (rule exI)
  have e: "(\<exists>chunks. iter_chunks ?n (items batch) = Inr chunks
                \<and> map (map Inr) (client_calls (out_events ?w)) = map (map ?f) chunks)
          \<and> map erase_stats (out_events ?w)
            = concat (map (timed_write (self_write_precision self)) (client_calls (out_events ?w)))
          \<and> (length (items batch) = 2500 \<and> ?n = 1000
                \<longrightarrow> map length (client_calls (out_events ?w)) = [1000, 1000, 500])"
    if ok: "out_raised ?w = None"
  proof -
    note i = sink_write_ok(1)[OF ok]
    note p = sink_write_ok(4)[OF ok]
    note q = sink_write_ok(5)[OF ok]
    have "map length (client_calls (out_events ?w)) = map length ?cs"
    proof -
      have "map length (map (map Inr) (client_calls (out_events ?w)) :: (error + point) list list)
              = map length (map (map ?f) ?cs)"
        using p by simp
      then show ?thesis by (simp add: comp_def)
    qed
    with d have l: "length (items batch) = 2500 \<and> ?n = 1000
                \<longrightarrow> map length (client_calls (out_events ?w)) = [1000, 1000, 500]"
      by simp
    from i p have "\<exists>chunks. iter_chunks ?n (items batch) = Inr chunks
                \<and> map (map Inr) (client_calls (out_events ?w)) = map (map ?f) chunks"
      by (intro exI conjI)
    with q l show ?thesis by (intro conjI)
  qed
  have r: "replay cl c (out_events ?w) = (True, out_client ?w)"
    by (rule sink_write_replay)
  have f: "out_raised ?w = None"
    if "0 < ?n \<and> (\<forall>item \<in> set (items batch).
              \<exists>v p. transform self (topic batch) (partition batch) item = (v, Inr p)
                    \<and> py_num (pt_time p) \<noteq> None)
        \<and> (\<forall>c rs wp. fst (cl c rs wp) = None)"
    using that sink_write_returns[of self batch cl c] by blast
  show ?thesis
  proof (intro conjI)
    show "\<forall>chunks. iter_chunks ?n (items batch) = Inr chunks \<longrightarrow>
       concat chunks = items batch
     \<and> (\<forall>chunk \<in> set chunks. chunk \<noteq> [] \<and> length chunk \<le> ?n)
     \<and> (\<forall>chunk \<in> set (butlast chunks). length chunk = ?n)
     \<and> (length (items batch) = 2500 \<and> ?n = 1000 \<longrightarrow> map length chunks = [1000, 1000, 500])"
      using a by (intro allI impI)
    show "0 < ?n \<longrightarrow> (\<exists>chunks. iter_chunks ?n (items batch) = Inr chunks)"
      using b by (intro impI)
    show "out_raised ?w = None
        \<longrightarrow> (\<exists>chunks. iter_chunks ?n (items batch) = Inr chunks
                \<and> map (map Inr) (client_calls (out_events ?w)) = map (map ?f) chunks)
            \<and> map erase_stats (out_events ?w)
                = concat (map (timed_write (self_write_precision self))
                              (client_calls (out_events ?w)))
            \<and> (length (items batch) = 2500 \<and> ?n = 1000
                 \<longrightarrow> map length (client_calls (out_events ?w)) = [1000, 1000, 500])"
      using e by (intro impI)
    show "replay cl c (out_events ?w) = (True, out_client ?w)" by (rule r)
    show "0 < ?n \<and> (\<forall>item \<in> set (items batch).
              \<exists>v p. transform self (topic batch) (partition batch) item = (v, Inr p)
                    \<and> py_num (pt_time p) \<noteq> None)
        \<and> (\<forall>c rs wp. fst (cl c rs wp) = None)
        \<longrightarrow> out_raised ?w = None"
      using f by (intro impI)
  qed
qed

theorem chunked_writes_witness:
  "0 < self_batch_size plain_sink
   \<and> length (items big_batch) = 2500
   \<and> self_batch_size plain_sink = 1000
   \<and> out_raised (sink_write plain_sink recording_client big_batch []) = None
   \<and> map length (client_calls (out_events (sink_write plain_sink recording_client big_batch [])))
       = [1000, 1000, 500]
   \<and> map length (out_client (sink_write plain_sink recording_client big_batch []))
       = [1000, 1000, 500]
   \<and> concat (out_client (sink_write plain_sink recording_client big_batch []))
       = map big_point [0..<2500]"
proof -
  let ?w = "sink_write plain_sink recording_client big_batch []"
  let ?f = "\<lambda>item. snd (transform plain_sink (topic big_batch) (partition big_batch) item)"
  have h0: "0 < self_batch_size plain_sink" by (simp add: plain_sink_simps)
  have h1: "length (items big_batch) = 2500" by (simp add: big_batch_def)
  have h2: "self_batch_size plain_sink = 1000" by (simp add: plain_sink_simps)
  have h3: "\<forall>item \<in> set (items big_batch).
              \<exists>v p. transform plain_sink (topic big_batch) (partition big_batch) item = (v, Inr p)
                    \<and> py_num (pt_time p) \<noteq> None"
    by (auto simp: big_batch_def transform_big_item big_point_def)
  have h4: "\<forall>c rs wp. fst (recording_client c rs wp) = None"
    by (simp add: recording_client_def)
  note t = chunked_writes [of plain_sink big_batch recording_client "[]"]
  from t have t1: "\<forall>chunks. iter_chunks (self_batch_size plain_sink) (items big_batch) = Inr chunks
                     \<longrightarrow> concat chunks = items big_batch"
    by blast
  from t h0 h3 h4 have r: "out_raised ?w = None"
    by blast
  from t r h1 h2
  have l: "map length (client_calls (out_events ?w)) = [1000, 1000, 500]"
    by blast
  from t r obtain chunks where
    i: "iter_chunks (self_batch_size plain_sink) (items big_batch) = Inr chunks"
    and p: "map (map Inr) (client_calls (out_events ?w)) = map (map ?f) chunks"
    by blast
  from t have rp: "replay recording_client [] (out_events ?w) = (True, out_client ?w)"
    by blast
  from replay_recording_client[OF rp] have oc: "out_client ?w = client_calls (out_events ?w)"
    by simp
  from t1 i have cc: "concat chunks = items big_batch" by blast
  have "map Inr (concat (client_calls (out_events ?w)))
          = concat (map (map Inr) (client_calls (out_events ?w)))"
    by (simp add: map_concat)
  also have "\<dots> = concat (map (map ?f) chunks)" using p by simp
  also have "\<dots> = map ?f (concat chunks)" by (simp add: map_concat)
  also have "\<dots> = map ?f (items big_batch)" using cc by simp
  also have "\<dots> = map Inr (map big_point [0..<2500])"
    by (simp add: big_batch_def transform_big_item)
  finally have "map Inr (concat (client_calls (out_events ?w)))
                  = (map Inr (map big_point [0..<2500]) :: (error + point) list)" .
  then have pts: "concat (client_calls (out_events ?w)) = map big_point [0..<2500]"
    by (rule map_injective) simp
  from h0 h1 h2 r l oc pts show ?thesis by simp
qed

end
